theory Spec2Isabelle
  imports Main
begin

section \<open>Python data\<close>

text \<open>
  Template data is what a JSON or YAML parser produces: \<open>None\<close>, booleans, integers,
  strings, lists and dictionaries keyed by strings (floating-point numbers are left
  out). A dictionary is an association list in iteration order; \<open>d[k] = v\<close> overwrites
  the entry of an existing key in place and appends a new key at the end.
\<close>

datatype pyval =
    VNone
  | VBool bool
  | VInt int
  | VStr string
  | VList "pyval list"
  | VDict "(string \<times> pyval) list"

type_synonym pydict = "(string \<times> pyval) list"

text \<open>
  The exceptions that can leave the functions of \<open>template_common.py\<close>. \<open>TypeError\<close>,
  \<open>KeyError\<close>, \<open>AttributeError\<close> and \<open>RuntimeError\<close> are Python's own; the two \<open>Invalid...\<close> ones are
  \<open>heat.common.exception\<close> classes with their keyword arguments; \<open>OtherError\<close> stands
  for whatever else a collaborator raises.
\<close>

datatype error =
    TypeError string
  | KeyError string
  | AttributeError string
  | RuntimeError string
  | InvalidConditionDefinition string pyval
  | InvalidConditionReference pyval string
  | OtherError string

fun dict_set :: "string \<Rightarrow> 'v \<Rightarrow> (string \<times> 'v) list \<Rightarrow> (string \<times> 'v) list" where
  "dict_set k v [] = [(k, v)]"
| "dict_set k v ((k', v') # d) =
     (if k = k' then (k, v) # d else (k', v') # dict_set k v d)"

text \<open>\<open>isinstance(v, bool)\<close>.\<close>

fun is_bool :: "pyval \<Rightarrow> bool" where
  "is_bool (VBool b) = True"
| "is_bool v = False"

text \<open>Truth value testing on plain data.\<close>

fun truthy :: "pyval \<Rightarrow> bool" where
  "truthy VNone = False"
| "truthy (VBool b) = b"
| "truthy (VInt i) = (i \<noteq> 0)"
| "truthy (VStr s) = (s \<noteq> [])"
| "truthy (VList xs) = (xs \<noteq> [])"
| "truthy (VDict d) = (d \<noteq> [])"

text \<open>\<open>obj[key]\<close> for a string key.\<close>

fun py_getitem :: "pyval \<Rightarrow> string \<Rightarrow> error + pyval" where
  "py_getitem (VDict d) key =
     (case map_of d key of None \<Rightarrow> Inl (KeyError key) | Some v \<Rightarrow> Inr v)"
| "py_getitem (VList xs) key = Inl (TypeError ''list indices must be integers'')"
| "py_getitem (VStr s) key = Inl (TypeError ''string indices must be integers'')"
| "py_getitem v key = Inl (TypeError ''object is not subscriptable'')"

text \<open>\<open>sep.join(parts)\<close>.\<close>

fun join :: "string \<Rightarrow> string list \<Rightarrow> string" where
  "join sep [] = []"
| "join sep [x] = x"
| "join sep (x # y # ys) = x @ sep @ join sep (y # ys)"

section \<open>Resource key types\<close>

text \<open>
  A value of a parsed resource definition is plain data or a \<open>function.Function\<close>
  object (an intrinsic function with its name and arguments). The classes that
  \<open>_validate_resource_definition\<close> passes as \<open>valid_types\<close> are \<open>six.string_types\<close>,
  \<open>collections.Mapping\<close>, \<open>collections.Sequence\<close> and \<open>function.Function\<close>; a tuple
  of classes is a list here.
\<close>

datatype rval = Plain pyval | FunctionObj string pyval

datatype pytype = TNoneType | TBool | TInt | TString | TSequence | TMapping | TFunction

fun instance_of :: "rval \<Rightarrow> pytype \<Rightarrow> bool" where
  "instance_of (Plain VNone) t = (t = TNoneType)"
| "instance_of (Plain (VBool b)) t = (t = TBool \<or> t = TInt)"
| "instance_of (Plain (VInt i)) t = (t = TInt)"
| "instance_of (Plain (VStr s)) t = (t = TString \<or> t = TSequence)"
| "instance_of (Plain (VList xs)) t = (t = TSequence)"
| "instance_of (Plain (VDict d)) t = (t = TMapping)"
| "instance_of (FunctionObj f args) t = (t = TFunction)"

definition isinstance :: "rval \<Rightarrow> pytype list \<Rightarrow> bool" where
  "isinstance v valid_types = list_ex (instance_of v) valid_types"

text \<open>
  \<open>validate_resource_key_type\<close>. The message is the format string filled in; \<open>_\<close>, the
  translation marker, leaves it as it is.
\<close>

definition validate_resource_key_type ::
  "string \<Rightarrow> pytype list \<Rightarrow> string \<Rightarrow> string \<Rightarrow> (string \<times> rval) list \<Rightarrow> error + bool" where
  "validate_resource_key_type key valid_types typename rsrc_name rsrc_data =
     (case map_of rsrc_data key of
        Some v \<Rightarrow>
          if \<not> isinstance v valid_types
          then Inl (TypeError (''Resource '' @ rsrc_name @ '' '' @ key @
                               '' type must be '' @ typename))
          else Inr True
      | None \<Rightarrow> Inr False)"

section \<open>The template object\<close>

text \<open>
  A \<open>CommonTemplate\<close> instance \<open>self\<close>. The section names are class attributes of the
  concrete dialect; \<open>get_condition_definitions\<close> and \<open>has_condition_section\<close> are the
  methods a dialect overrides (\<open>'a\<close> is what a snippet is and \<open>'v\<close> what a value of
  the template is: plain data here, references into a store of objects further
  down); \<open>parse_condition\<close> (inherited from \<open>template.Template\<close>)
  and \<open>function.resolve\<close> belong to the function-evaluation subsystem: they may raise,
  and they run in a world \<open>'w\<close> of their own which they may change, so that each of
  their invocations can be observed. \<open>priv_conditions\<close> is the attribute
  \<open>self._conditions\<close>, \<open>None\<close> until \<open>conditions\<close> fills it.
\<close>

record ('a, 'v, 's, 'f, 'w) template =
  RESOURCES :: string
  RES_CONDITION :: string
  OUTPUTS :: string
  OUTPUT_CONDITION :: string
  OUTPUT_VALUE :: string
  CONDITION :: string
  get_condition_definitions :: "(string \<times> 'v) list"
  has_condition_section :: "'a \<Rightarrow> bool"
  parse_condition :: "'s \<Rightarrow> 'v \<Rightarrow> 'w \<Rightarrow> (error + 'f) \<times> 'w"
  function_resolve :: "'f \<Rightarrow> 'w \<Rightarrow> (error + 'v) \<times> 'w"
  priv_conditions :: "(string \<times> 'v) list option"

text \<open>
  The loop of \<open>resolve_conditions\<close> over the items of the definitions, with the
  dictionary \<open>result\<close> built so far. An exception ends the loop; the world keeps what
  the evaluator did to it.
\<close>

fun resolve_loop ::
  "('a, pyval, 's, 'f, 'w) template \<Rightarrow> 's \<Rightarrow> pydict \<Rightarrow> pydict \<Rightarrow> 'w \<Rightarrow> (error + pydict) \<times> 'w" where
  "resolve_loop self stack [] result w = (Inr result, w)"
| "resolve_loop self stack ((cd_key, cd_value) # rest) result w =
     (if \<not> is_bool cd_value then
        (case parse_condition self stack cd_value w of
           (Inl e, w1) \<Rightarrow> (Inl e, w1)
         | (Inr condition_func, w1) \<Rightarrow>
             (case function_resolve self condition_func w1 of
                (Inl e, w2) \<Rightarrow> (Inl e, w2)
              | (Inr resolved_cd_value, w2) \<Rightarrow>
                  resolve_loop self stack rest (dict_set cd_key resolved_cd_value result) w2))
      else resolve_loop self stack rest (dict_set cd_key cd_value result) w)"

definition resolve_conditions ::
  "('a, pyval, 's, 'f, 'w) template \<Rightarrow> 's \<Rightarrow> 'w \<Rightarrow> (error + pydict) \<times> 'w" where
  "resolve_conditions self stack w =
     (let cd_snippet = get_condition_definitions self
      in resolve_loop self stack cd_snippet [] w)"

fun validate_loop :: "pydict \<Rightarrow> error + unit" where
  "validate_loop [] = Inr ()"
| "validate_loop ((cd_key, cd_value) # rest) =
     (if \<not> is_bool cd_value then Inl (InvalidConditionDefinition cd_key cd_value)
      else validate_loop rest)"

definition validate_condition_definitions ::
  "('a, pyval, 's, 'f, 'w) template \<Rightarrow> 's \<Rightarrow> 'w \<Rightarrow> (error + unit) \<times> 'w" where
  "validate_condition_definitions self stack w =
     (case resolve_conditions self stack w of
        (Inl e, w1) \<Rightarrow> (Inl e, w1)
      | (Inr resolved_cds, w1) \<Rightarrow>
          (if resolved_cds \<noteq> [] then (validate_loop resolved_cds, w1) else (Inr (), w1)))"

text \<open>\<open>conditions\<close> returns its value, the instance after the call and the world.\<close>

definition conditions ::
  "('a, pyval, 's, 'f, 'w) template \<Rightarrow> 's \<Rightarrow> 'w \<Rightarrow> (error + pydict) \<times> ('a, pyval, 's, 'f, 'w) template \<times> 'w" where
  "conditions self stack w =
     (case priv_conditions self of
        None \<Rightarrow>
          (case resolve_conditions self stack w of
             (Inl e, w1) \<Rightarrow> (Inl e, self, w1)
           | (Inr r, w1) \<Rightarrow> (Inr r, self\<lparr>priv_conditions := Some r\<rparr>, w1))
      | Some cds \<Rightarrow> (Inr cds, self, w))"

text \<open>
  \<open>cd_key not in cds\<close>: a list or a dictionary is unhashable; any other key that is
  not a string is not among the names.
\<close>

fun cds_lookup :: "pydict \<Rightarrow> pyval \<Rightarrow> string \<Rightarrow> error + pyval" where
  "cds_lookup cds (VStr name) path =
     (case map_of cds name of
        None \<Rightarrow> Inl (InvalidConditionReference (VStr name) path)
      | Some cd \<Rightarrow> Inr cd)"
| "cds_lookup cds (VList xs) path = Inl (TypeError ''unhashable type'')"
| "cds_lookup cds (VDict d) path = Inl (TypeError ''unhashable type'')"
| "cds_lookup cds cd_key path = Inl (InvalidConditionReference cd_key path)"

definition get_condition ::
  "(pyval, pyval, 's, 'f, 'w) template \<Rightarrow> pyval \<Rightarrow> 's \<Rightarrow> string \<Rightarrow> 'w \<Rightarrow>
     (error + pyval) \<times> (pyval, pyval, 's, 'f, 'w) template \<times> 'w" where
  "get_condition self snippet stack path w =
     (if has_condition_section self snippet then
        (case py_getitem snippet (CONDITION self) of
           Inl e \<Rightarrow> (Inl e, self, w)
         | Inr cd_key \<Rightarrow>
             (case conditions self stack w of
                (Inl e, self1, w1) \<Rightarrow> (Inl e, self1, w1)
              | (Inr cds, self1, w1) \<Rightarrow> (cds_lookup cds cd_key path, self1, w1)))
      else (Inr (VBool True), self, w))"

definition get_res_condition ::
  "(pyval, pyval, 's, 'f, 'w) template \<Rightarrow> 's \<Rightarrow> pyval \<Rightarrow> string \<Rightarrow> 'w \<Rightarrow>
     (error + pyval) \<times> (pyval, pyval, 's, 'f, 'w) template \<times> 'w" where
  "get_res_condition self stack res_data res_name w =
     (let path = (if has_condition_section self res_data
                  then join ''.'' [RESOURCES self, res_name, RES_CONDITION self]
                  else '''')
      in get_condition self res_data stack path w)"

definition get_output_condition ::
  "(pyval, pyval, 's, 'f, 'w) template \<Rightarrow> 's \<Rightarrow> pyval \<Rightarrow> string \<Rightarrow> 'w \<Rightarrow>
     (error + pyval) \<times> (pyval, pyval, 's, 'f, 'w) template \<times> 'w" where
  "get_output_condition self stack o_data o_key w =
     (let path = join ''.'' [OUTPUTS self, o_key, OUTPUT_CONDITION self]
      in get_condition self o_data stack path w)"

section \<open>An example dialect\<close>

text \<open>
  A dialect with the section names of the spec, whose condition section is the key
  \<open>condition\<close> of a dictionary snippet, over two stub evaluators that count their
  invocations in the world: \<open>example_resolve\<close> negates \<open>["not", b]\<close>, fails on \<open>None\<close>
  and returns any other expression as it is; \<open>truth_resolve\<close> returns the truth value
  of the expression.
\<close>

definition example_resolve :: "pyval \<Rightarrow> nat \<Rightarrow> (error + pyval) \<times> nat" where
  "example_resolve f n =
     (case f of
        VNone \<Rightarrow> (Inl (OtherError ''cannot resolve''), Suc n)
      | VList [VStr op, VBool b] \<Rightarrow>
          (if op = ''not'' then (Inr (VBool (\<not> b)), Suc n) else (Inr f, Suc n))
      | _ \<Rightarrow> (Inr f, Suc n))"

fun example_has_condition_section :: "pyval \<Rightarrow> bool" where
  "example_has_condition_section (VDict d) = (map_of d ''condition'' \<noteq> None)"
| "example_has_condition_section v = False"

definition truth_resolve :: "pyval \<Rightarrow> nat \<Rightarrow> (error + pyval) \<times> nat" where
  "truth_resolve f n = (Inr (VBool (truthy f)), Suc n)"

definition example_template ::
  "pydict \<Rightarrow> (pyval \<Rightarrow> nat \<Rightarrow> (error + pyval) \<times> nat) \<Rightarrow> (pyval, pyval, unit, pyval, nat) template" where
  "example_template defs resolve =
     \<lparr>RESOURCES = ''resources'', RES_CONDITION = ''condition'', OUTPUTS = ''outputs'',
      OUTPUT_CONDITION = ''condition'', OUTPUT_VALUE = ''value'', CONDITION = ''condition'',
      get_condition_definitions = defs,
      has_condition_section = example_has_condition_section,
      parse_condition = (\<lambda>stack v n. (Inr v, n)),
      function_resolve = resolve,
      priv_conditions = None\<rparr>"

text \<open>An output or resource snippet with the value \<open>"x"\<close> under the condition \<open>name\<close>.\<close>

definition example_snippet :: "string \<Rightarrow> pyval" where
  "example_snippet name = VDict [(''value'', VStr ''x''), (''condition'', VStr name)]"

section \<open>The outputs as objects of a store\<close>

text \<open>
  \<open>parse_outputs_conditions\<close> copies the outputs and assigns into the snippets of the
  copy. What it returns, what it changes and what it shares depend on which objects
  are the same object, so it is modelled on a store: the list of the dictionaries and
  lists that exist, an object's address its index, a new object the next index. A
  reference \<open>hval\<close> is immutable data or the address of an object; the keys of a
  dictionary are strings.
\<close>

datatype hval = HNone | HBool bool | HInt int | HStr string | HRef nat

datatype hobj = ODict "(string \<times> hval) list" | OList "hval list"

type_synonym store = "hobj list"

text \<open>
  Reading an object, \<open>y.append(v)\<close> for a list \<open>y\<close> and \<open>y[k] = v\<close> for a dictionary
  \<open>y\<close>.
\<close>

definition store_get :: "store \<Rightarrow> nat \<Rightarrow> hobj option" where
  "store_get h a = (if a < length h then Some (h ! a) else None)"

definition list_append :: "store \<Rightarrow> nat \<Rightarrow> hval \<Rightarrow> store" where
  "list_append h y v =
     (case store_get h y of Some (OList xs) \<Rightarrow> h[y := OList (xs @ [v])] | _ \<Rightarrow> h)"

definition dict_setitem :: "store \<Rightarrow> nat \<Rightarrow> string \<Rightarrow> hval \<Rightarrow> store" where
  "dict_setitem h y k v =
     (case store_get h y of Some (ODict d) \<Rightarrow> h[y := ODict (dict_set k v d)] | _ \<Rightarrow> h)"

text \<open>
  \<open>copy.deepcopy(x, memo)\<close>. An atomic value is its own copy. For a list or a
  dictionary \<open>x\<close> the memo is asked first; otherwise a new empty object \<open>y\<close> is made,
  entered in the memo under \<open>x\<close> and filled with the copies of the elements of \<open>x\<close>, in
  their order. The recursion of \<open>deepcopy\<close> on the elements is bounded by \<open>fuel\<close>, the
  depth the interpreter allows; the result is \<open>None\<close> when the fuel runs out (or an
  address is not in the store, which no Python reference ever is).
\<close>

function deepcopy_st ::
    "nat \<Rightarrow> hval \<Rightarrow> (nat \<times> nat) list \<Rightarrow> store \<Rightarrow> (hval \<times> (nat \<times> nat) list \<times> store) option"
  and deepcopy_list_st ::
    "nat \<Rightarrow> hval list \<Rightarrow> nat \<Rightarrow> (nat \<times> nat) list \<Rightarrow> store \<Rightarrow> ((nat \<times> nat) list \<times> store) option"
  and deepcopy_dict_st ::
    "nat \<Rightarrow> (string \<times> hval) list \<Rightarrow> nat \<Rightarrow> (nat \<times> nat) list \<Rightarrow> store \<Rightarrow>
       ((nat \<times> nat) list \<times> store) option" where
  "deepcopy_st fuel v memo h =
     (case v of
        HRef x \<Rightarrow>
          (case map_of memo x of
             Some y \<Rightarrow> Some (HRef y, memo, h)
           | None \<Rightarrow>
               (case fuel of
                  0 \<Rightarrow> None
                | Suc n \<Rightarrow>
                    (case store_get h x of
                       None \<Rightarrow> None
                     | Some (OList xs) \<Rightarrow>
                         (let y = length h in
                          case deepcopy_list_st n xs y ((x, y) # memo) (h @ [OList []]) of
                            None \<Rightarrow> None
                          | Some (memo', h') \<Rightarrow> Some (HRef y, memo', h'))
                     | Some (ODict d) \<Rightarrow>
                         (let y = length h in
                          case deepcopy_dict_st n d y ((x, y) # memo) (h @ [ODict []]) of
                            None \<Rightarrow> None
                          | Some (memo', h') \<Rightarrow> Some (HRef y, memo', h')))))
      | _ \<Rightarrow> Some (v, memo, h))"
| "deepcopy_list_st n [] y memo h = Some (memo, h)"
| "deepcopy_list_st n (a # xs) y memo h =
     (case deepcopy_st n a memo h of
        None \<Rightarrow> None
      | Some (a', memo1, h1) \<Rightarrow> deepcopy_list_st n xs y memo1 (list_append h1 y a'))"
| "deepcopy_dict_st n [] y memo h = Some (memo, h)"
| "deepcopy_dict_st n ((key, v) # d) y memo h =
     (case deepcopy_st n v memo h of
        None \<Rightarrow> None
      | Some (v', memo1, h1) \<Rightarrow> deepcopy_dict_st n d y memo1 (dict_setitem h1 y key v'))"
  by pat_completeness auto
termination
  by (relation "inv_image (less_than <*lex*> less_than) (\<lambda>x. case x of
          Inl (fuel, v, memo, h) \<Rightarrow> (fuel, 0)
        | Inr (Inl (n, xs, y, memo, h)) \<Rightarrow> (n, Suc (length xs))
        | Inr (Inr (n, d, y, memo, h)) \<Rightarrow> (n, Suc (length d)))") auto

declare deepcopy_st.simps [simp del]

text \<open>
  \<open>isinstance(v, bool)\<close> and truth value testing on references: a list or a dictionary
  is true when it is not empty.
\<close>

fun is_bool_st :: "hval \<Rightarrow> bool" where
  "is_bool_st (HBool b) = True"
| "is_bool_st v = False"

fun truthy_st :: "store \<Rightarrow> hval \<Rightarrow> bool" where
  "truthy_st h HNone = False"
| "truthy_st h (HBool b) = b"
| "truthy_st h (HInt i) = (i \<noteq> 0)"
| "truthy_st h (HStr s) = (s \<noteq> [])"
| "truthy_st h (HRef a) =
     (case store_get h a of
        Some (OList xs) \<Rightarrow> xs \<noteq> []
      | Some (ODict d) \<Rightarrow> d \<noteq> []
      | None \<Rightarrow> True)"

text \<open>\<open>snippet[key]\<close>, \<open>snippet[key] = v\<close> and \<open>cd_key not in cds\<close> on references.\<close>

fun st_getitem :: "store \<Rightarrow> hval \<Rightarrow> string \<Rightarrow> error + hval" where
  "st_getitem h (HRef a) key =
     (case store_get h a of
        Some (ODict d) \<Rightarrow> (case map_of d key of None \<Rightarrow> Inl (KeyError key) | Some v \<Rightarrow> Inr v)
      | Some (OList xs) \<Rightarrow> Inl (TypeError ''list indices must be integers'')
      | None \<Rightarrow> Inl (OtherError ''no such object''))"
| "st_getitem h (HStr s) key = Inl (TypeError ''string indices must be integers'')"
| "st_getitem h v key = Inl (TypeError ''object is not subscriptable'')"

fun st_setitem :: "store \<Rightarrow> hval \<Rightarrow> string \<Rightarrow> hval \<Rightarrow> error + store" where
  "st_setitem h (HRef a) key v =
     (case store_get h a of
        Some (ODict d) \<Rightarrow> Inr (h[a := ODict (dict_set key v d)])
      | Some (OList xs) \<Rightarrow> Inl (TypeError ''list indices must be integers'')
      | None \<Rightarrow> Inl (OtherError ''no such object''))"
| "st_setitem h x key v = Inl (TypeError ''object does not support item assignment'')"

fun cds_lookup_st :: "(string \<times> hval) list \<Rightarrow> hval \<Rightarrow> string \<Rightarrow> error + hval" where
  "cds_lookup_st cds (HStr name) path =
     (case map_of cds name of
        None \<Rightarrow> Inl (InvalidConditionReference (VStr name) path)
      | Some cd \<Rightarrow> Inr cd)"
| "cds_lookup_st cds (HRef a) path = Inl (TypeError ''unhashable type'')"
| "cds_lookup_st cds HNone path = Inl (InvalidConditionReference VNone path)"
| "cds_lookup_st cds (HBool b) path = Inl (InvalidConditionReference (VBool b) path)"
| "cds_lookup_st cds (HInt i) path = Inl (InvalidConditionReference (VInt i) path)"

text \<open>
  \<open>resolve_conditions\<close> and \<open>conditions\<close> on references. The definitions hold
  references, the evaluator returns a reference, and \<open>result\<close> and the cache keep the
  reference they are given: the resolved condition is the object the evaluator
  returned, not a copy of it. Here the world of the evaluator is any world; below it
  is the store together with the evaluator's own world, so the evaluator may read the
  store, create objects, and return any object.
\<close>

fun resolve_loop_st ::
  "('a, hval, 's, 'f, 'w) template \<Rightarrow> 's \<Rightarrow> (string \<times> hval) list \<Rightarrow> (string \<times> hval) list \<Rightarrow> 'w \<Rightarrow>
     (error + (string \<times> hval) list) \<times> 'w" where
  "resolve_loop_st self stack [] result w = (Inr result, w)"
| "resolve_loop_st self stack ((cd_key, cd_value) # rest) result w =
     (if \<not> is_bool_st cd_value then
        (case parse_condition self stack cd_value w of
           (Inl e, w1) \<Rightarrow> (Inl e, w1)
         | (Inr condition_func, w1) \<Rightarrow>
             (case function_resolve self condition_func w1 of
                (Inl e, w2) \<Rightarrow> (Inl e, w2)
              | (Inr resolved_cd_value, w2) \<Rightarrow>
                  resolve_loop_st self stack rest (dict_set cd_key resolved_cd_value result) w2))
      else resolve_loop_st self stack rest (dict_set cd_key cd_value result) w)"

definition resolve_conditions_st ::
  "('a, hval, 's, 'f, 'w) template \<Rightarrow> 's \<Rightarrow> 'w \<Rightarrow> (error + (string \<times> hval) list) \<times> 'w" where
  "resolve_conditions_st self stack w =
     (let cd_snippet = get_condition_definitions self
      in resolve_loop_st self stack cd_snippet [] w)"

definition conditions_st ::
  "('a, hval, 's, 'f, 'w) template \<Rightarrow> 's \<Rightarrow> 'w \<Rightarrow>
     (error + (string \<times> hval) list) \<times> ('a, hval, 's, 'f, 'w) template \<times> 'w" where
  "conditions_st self stack w =
     (case priv_conditions self of
        None \<Rightarrow>
          (case resolve_conditions_st self stack w of
             (Inl e, w1) \<Rightarrow> (Inl e, self, w1)
           | (Inr r, w1) \<Rightarrow> (Inr r, self\<lparr>priv_conditions := Some r\<rparr>, w1))
      | Some cds \<Rightarrow> (Inr cds, self, w))"

text \<open>
  \<open>get_condition\<close> and \<open>get_output_condition\<close> on a snippet of the store. The
  dialect's \<open>has_condition_section\<close> is given the store and the snippet. The store
  changes only by what the evaluator does when \<open>conditions\<close> resolves.
\<close>

definition get_condition_st ::
  "(store \<times> hval, hval, 's, 'f, store \<times> 'w) template \<Rightarrow> hval \<Rightarrow> 's \<Rightarrow> string \<Rightarrow> store \<Rightarrow> 'w \<Rightarrow>
     (error + hval) \<times> (store \<times> hval, hval, 's, 'f, store \<times> 'w) template \<times> store \<times> 'w" where
  "get_condition_st self snippet stack path h w =
     (if has_condition_section self (h, snippet) then
        (case st_getitem h snippet (CONDITION self) of
           Inl e \<Rightarrow> (Inl e, self, h, w)
         | Inr cd_key \<Rightarrow>
             (case conditions_st self stack (h, w) of
                (Inl e, self1, h1, w1) \<Rightarrow> (Inl e, self1, h1, w1)
              | (Inr cds, self1, h1, w1) \<Rightarrow> (cds_lookup_st cds cd_key path, self1, h1, w1)))
      else (Inr (HBool True), self, h, w))"

definition get_output_condition_st ::
  "(store \<times> hval, hval, 's, 'f, store \<times> 'w) template \<Rightarrow> 's \<Rightarrow> hval \<Rightarrow> string \<Rightarrow> store \<Rightarrow> 'w \<Rightarrow>
     (error + hval) \<times> (store \<times> hval, hval, 's, 'f, store \<times> 'w) template \<times> store \<times> 'w" where
  "get_output_condition_st self stack o_data o_key h w =
     (let path = join ''.'' [OUTPUTS self, o_key, OUTPUT_CONDITION self]
      in get_condition_st self o_data stack path h w)"

text \<open>
  The loop of \<open>parse_outputs_conditions\<close> over the items of the dictionary
  \<open>copy_outputs\<close> at address \<open>a\<close>, which had \<open>n\<close> items when the iteration began. The
  iterator reads the dictionary anew at every step, the last one included, and raises
  when its size has changed. \<open>snippet[self.OUTPUT_CONDITION] = cd\<close> stores the
  reference \<open>cd\<close> that the conditions hold, in the snippet's object; \<open>not cd\<close> is
  tested after that assignment.
\<close>

fun outputs_loop_st ::
  "(store \<times> hval, hval, 's, 'f, store \<times> 'w) template \<Rightarrow> 's \<Rightarrow> nat \<Rightarrow> nat \<Rightarrow> nat list \<Rightarrow> store \<Rightarrow> 'w \<Rightarrow>
     (error + unit) \<times> (store \<times> hval, hval, 's, 'f, store \<times> 'w) template \<times> store \<times> 'w" where
  "outputs_loop_st self stack a n [] h w =
     (case store_get h a of
        Some (ODict items) \<Rightarrow>
          (if length items \<noteq> n
           then (Inl (RuntimeError ''dictionary changed size during iteration''), self, h, w)
           else (Inr (), self, h, w))
      | _ \<Rightarrow> (Inl (OtherError ''no such dictionary''), self, h, w))"
| "outputs_loop_st self stack a n (i # rest) h w =
     (case store_get h a of
        Some (ODict items) \<Rightarrow>
          (if length items \<noteq> n
           then (Inl (RuntimeError ''dictionary changed size during iteration''), self, h, w)
           else
             (case items ! i of (key, snippet) \<Rightarrow>
                (if has_condition_section self (h, snippet) then
                   (case get_output_condition_st self stack snippet key h w of
                      (Inl e, self1, h1, w1) \<Rightarrow> (Inl e, self1, h1, w1)
                    | (Inr cd, self1, h1, w1) \<Rightarrow>
                        (case st_setitem h1 snippet (OUTPUT_CONDITION self1) cd of
                           Inl e \<Rightarrow> (Inl e, self1, h1, w1)
                         | Inr h2 \<Rightarrow>
                             (case (if \<not> truthy_st h2 cd
                                    then st_setitem h2 snippet (OUTPUT_VALUE self1) HNone
                                    else Inr h2) of
                                Inl e \<Rightarrow> (Inl e, self1, h2, w1)
                              | Inr h3 \<Rightarrow> outputs_loop_st self1 stack a n rest h3 w1)))
                 else outputs_loop_st self stack a n rest h w)))
      | _ \<Rightarrow> (Inl (OtherError ''no such dictionary''), self, h, w))"

definition parse_outputs_conditions_st ::
  "nat \<Rightarrow> (store \<times> hval, hval, 's, 'f, store \<times> 'w) template \<Rightarrow> hval \<Rightarrow> 's \<Rightarrow> store \<Rightarrow> 'w \<Rightarrow>
     ((error + hval) \<times> (store \<times> hval, hval, 's, 'f, store \<times> 'w) template \<times> store \<times> 'w) option" where
  "parse_outputs_conditions_st fuel self outputs stack h w =
     (case deepcopy_st fuel outputs [] h of
        None \<Rightarrow> None
      | Some (copy_outputs, memo, h1) \<Rightarrow>
          Some (case copy_outputs of
                  HRef a \<Rightarrow>
                    (case store_get h1 a of
                       Some (ODict items) \<Rightarrow>
                         (case outputs_loop_st self stack a (length items) [0..<length items] h1 w of
                            (Inl e, self1, h2, w1) \<Rightarrow> (Inl e, self1, h2, w1)
                          | (Inr u, self1, h2, w1) \<Rightarrow> (Inr copy_outputs, self1, h2, w1))
                     | _ \<Rightarrow> (Inl (AttributeError ''object has no attribute items''), self, h1, w))
                | _ \<Rightarrow> (Inl (AttributeError ''object has no attribute items''), self, h1, w)))"

text \<open>
  The references an object holds, the addresses reachable from a reference, and the
  stores of Python: the keys of a dictionary are distinct and every reference is the
  address of an object.
\<close>

fun refs :: "hobj \<Rightarrow> hval set" where
  "refs (ODict d) = snd ` set d"
| "refs (OList xs) = set xs"

definition valid_ref :: "store \<Rightarrow> hval \<Rightarrow> bool" where
  "valid_ref h v = (case v of HRef a \<Rightarrow> a < length h | _ \<Rightarrow> True)"

fun keys_distinct :: "hobj \<Rightarrow> bool" where
  "keys_distinct (ODict d) = distinct (map fst d)"
| "keys_distinct (OList xs) = True"

definition wf_store :: "store \<Rightarrow> bool" where
  "wf_store h = list_all (\<lambda>obj. keys_distinct obj \<and> (\<forall>v \<in> refs obj. valid_ref h v)) h"

inductive_set reach :: "store \<Rightarrow> hval \<Rightarrow> nat set" for h :: store and v :: hval where
  root: "v = HRef a \<Longrightarrow> a \<in> reach h v"
| step: "b \<in> reach h v \<Longrightarrow> store_get h b = Some obj \<Longrightarrow> HRef c \<in> refs obj \<Longrightarrow> c \<in> reach h v"

text \<open>
  What is asked of the collaborators on the store. The evaluator creates objects but
  changes none that exists (\<open>evaluator_allocates\<close>). The resolved conditions a
  snippet can be given are the values the cache holds (\<open>cache_vals\<close>). A dialect's
  \<open>has_condition_section\<close> is \<open>shallow\<close> when it looks at nothing but the snippet's own
  object. The snippets of the outputs are separate when no two entries hold the same
  object and no entry holds the outputs themselves.
\<close>

definition evaluator_allocates :: "(store \<times> hval, hval, 's, 'f, store \<times> 'w) template \<Rightarrow> bool" where
  "evaluator_allocates self =
     ((\<forall>stack v h w r h' w'. parse_condition self stack v (h, w) = (r, h', w') \<longrightarrow>
          take (length h) h' = h) \<and>
      (\<forall>f h w r h' w'. function_resolve self f (h, w) = (r, h', w') \<longrightarrow>
          take (length h) h' = h))"

definition cache_vals :: "('a, hval, 's, 'f, 'w) template \<Rightarrow> hval set" where
  "cache_vals self = (case priv_conditions self of None \<Rightarrow> {} | Some cds \<Rightarrow> snd ` set cds)"

fun is_ref :: "hval \<Rightarrow> bool" where
  "is_ref (HRef a) = True"
| "is_ref v = False"

definition shallow :: "(store \<times> hval, hval, 's, 'f, store \<times> 'w) template \<Rightarrow> bool" where
  "shallow self =
     (\<forall>h h' v. (\<forall>s. v = HRef s \<longrightarrow> store_get h s = store_get h' s) \<longrightarrow>
        has_condition_section self (h, v) = has_condition_section self (h', v))"

definition separate_items :: "(string \<times> hval) list \<Rightarrow> nat \<Rightarrow> bool" where
  "separate_items items x =
     (distinct (filter is_ref (map snd items)) \<and> HRef x \<notin> set (map snd items))"

definition separate_snippets :: "store \<Rightarrow> hval \<Rightarrow> bool" where
  "separate_snippets h outputs =
     (case outputs of
        HRef x \<Rightarrow> (case store_get h x of Some (ODict items) \<Rightarrow> separate_items items x | _ \<Rightarrow> True)
      | _ \<Rightarrow> True)"

text \<open>
  The example dialect on the store: its condition section is the key \<open>condition\<close> of
  the snippet's dictionary, and its evaluator returns the expression it is given, the
  object itself, and counts its invocations.
\<close>

fun example_has_condition_section_st :: "store \<times> hval \<Rightarrow> bool" where
  "example_has_condition_section_st (h, HRef a) =
     (case store_get h a of Some (ODict d) \<Rightarrow> map_of d ''condition'' \<noteq> None | _ \<Rightarrow> False)"
| "example_has_condition_section_st (h, v) = False"

definition example_template_st ::
  "(string \<times> hval) list \<Rightarrow> (store \<times> hval, hval, unit, hval, store \<times> nat) template" where
  "example_template_st defs =
     \<lparr>RESOURCES = ''resources'', RES_CONDITION = ''condition'', OUTPUTS = ''outputs'',
      OUTPUT_CONDITION = ''condition'', OUTPUT_VALUE = ''value'', CONDITION = ''condition'',
      get_condition_definitions = defs,
      has_condition_section = example_has_condition_section_st,
      parse_condition = (\<lambda>stack v (h, n). (Inr v, h, n)),
      function_resolve = (\<lambda>f (h, n). (Inr f, h, Suc n)),
      priv_conditions = None\<rparr>"

text \<open>
  Stores with outputs at address 0. In \<open>example_store\<close> the outputs are
  \<open>{"out1": {"value": ["x", <the list itself>], "condition": "condA"},
  "out2": {"value": "y"}}\<close>. In \<open>single_output_store name\<close> they are
  \<open>{"out1": {"value": "x", "condition": name}}\<close>, and in \<open>three_outputs_store\<close>
  three entries, one of them without a condition. In \<open>shared_list_store\<close> the list
  under \<open>value\<close> is the object that the definition of the condition \<open>c\<close> is. In
  \<open>nested_store\<close> the value of the entry \<open>a\<close> is the snippet of the entry \<open>b\<close>. In
  \<open>alias_store\<close> the two entries hold one snippet. In \<open>self_store\<close> the outputs hold
  themselves under \<open>x\<close>.
\<close>

definition example_store :: store where
  "example_store =
     [ODict [(''out1'', HRef 1), (''out2'', HRef 3)],
      ODict [(''value'', HRef 2), (''condition'', HStr ''condA'')],
      OList [HStr ''x'', HRef 2],
      ODict [(''value'', HStr ''y'')]]"

definition single_output_store :: "string \<Rightarrow> store" where
  "single_output_store name =
     [ODict [(''out1'', HRef 1)],
      ODict [(''value'', HStr ''x''), (''condition'', HStr name)]]"

definition three_outputs_store :: store where
  "three_outputs_store =
     [ODict [(''out1'', HRef 1), (''out2'', HRef 2), (''out3'', HRef 3)],
      ODict [(''value'', HStr ''x''), (''condition'', HStr ''zero'')],
      ODict [(''value'', HStr ''x''), (''condition'', HStr ''word'')],
      ODict [(''value'', HStr ''z'')]]"

definition shared_list_store :: store where
  "shared_list_store =
     [ODict [(''out1'', HRef 1)],
      ODict [(''value'', HRef 2), (''condition'', HStr ''c'')],
      OList [HStr ''x'']]"

definition self_store :: store where
  "self_store = [ODict [(''x'', HRef 0), (''condition'', HStr ''c'')]]"

definition nested_store :: store where
  "nested_store =
     [ODict [(''b'', HRef 1), (''a'', HRef 2)],
      ODict [(''condition'', HStr ''c2''), (''value'', HStr ''x'')],
      ODict [(''condition'', HStr ''c1''), (''value'', HRef 1)]]"

definition alias_store :: store where
  "alias_store =
     [ODict [(''a'', HRef 1), (''b'', HRef 1)],
      ODict [(''value'', HStr ''x''), (''condition'', HStr ''c1'')]]"

text \<open>
  What holds while a copy is made of a store that was \<open>h0\<close>: the objects of \<open>h0\<close> are
  still there unchanged, the objects made since refer only to each other, and the memo
  maps objects of \<open>h0\<close> to objects made since. \<open>unvisited\<close> are the objects of \<open>h0\<close>
  the memo does not know yet.
\<close>

definition fresh :: "nat \<Rightarrow> store \<Rightarrow> hval \<Rightarrow> bool" where
  "fresh n0 h v = (case v of HRef c \<Rightarrow> n0 \<le> c \<and> c < length h | _ \<Rightarrow> True)"

definition closed_from :: "nat \<Rightarrow> store \<Rightarrow> bool" where
  "closed_from n0 h = (\<forall>b. n0 \<le> b \<longrightarrow> b < length h \<longrightarrow> (\<forall>v \<in> refs (h ! b). fresh n0 h v))"

definition memo_ok :: "nat \<Rightarrow> store \<Rightarrow> (nat \<times> nat) list \<Rightarrow> bool" where
  "memo_ok n0 h memo = (\<forall>(x, y) \<in> set memo. x < n0 \<and> n0 \<le> y \<and> y < length h)"

definition dc_inv :: "store \<Rightarrow> (nat \<times> nat) list \<Rightarrow> store \<Rightarrow> bool" where
  "dc_inv h0 memo h =
     (length h0 \<le> length h \<and> take (length h0) h = h0 \<and>
      closed_from (length h0) h \<and> memo_ok (length h0) h memo)"

definition unvisited :: "store \<Rightarrow> (nat \<times> nat) list \<Rightarrow> nat set" where
  "unvisited h0 memo = {a. a < length h0 \<and> a \<notin> fst ` set memo}"

text \<open>
  What a deep copy is: with the references renamed along the memo (\<open>ren\<close>), the copy
  \<open>y\<close> of every object \<open>x\<close> the memo has learnt of is the object \<open>x\<close> renamed, and
  every reference in \<open>x\<close> is one the memo covers.
\<close>

fun ren :: "(nat \<times> nat) list \<Rightarrow> hval \<Rightarrow> hval" where
  "ren memo (HRef x) = (case map_of memo x of Some y \<Rightarrow> HRef y | None \<Rightarrow> HRef x)"
| "ren memo v = v"

fun ren_obj :: "(nat \<times> nat) list \<Rightarrow> hobj \<Rightarrow> hobj" where
  "ren_obj memo (OList xs) = OList (map (ren memo) xs)"
| "ren_obj memo (ODict d) = ODict (map (\<lambda>(k, v). (k, ren memo v)) d)"

definition cov :: "(nat \<times> nat) list \<Rightarrow> hval \<Rightarrow> bool" where
  "cov memo v = (case v of HRef x \<Rightarrow> map_of memo x \<noteq> None | _ \<Rightarrow> True)"

definition copied :: "store \<Rightarrow> (nat \<times> nat) list \<Rightarrow> nat \<Rightarrow> (nat \<times> nat) list \<Rightarrow> store \<Rightarrow> bool" where
  "copied h0 memo n memo' h' =
     (\<forall>x y. map_of memo' x = Some y \<longrightarrow> map_of memo x = None \<longrightarrow>
        n \<le> y \<and> store_get h' y = Some (ren_obj memo' (h0 ! x)) \<and>
        (\<forall>u \<in> refs (h0 ! x). cov memo' u))"

text \<open>
  While the loop runs, the objects of the copy are those between the two lengths
  \<open>n0\<close> and \<open>n1\<close> of the store, before and after \<open>deepcopy\<close>. They refer to each other
  and to what the conditions cache holds, \<open>C\<close>.
\<close>

definition inreg :: "nat \<Rightarrow> nat \<Rightarrow> hval \<Rightarrow> bool" where
  "inreg n0 n1 v = (case v of HRef c \<Rightarrow> n0 \<le> c \<and> c < n1 | _ \<Rightarrow> True)"

definition copy_region :: "nat \<Rightarrow> nat \<Rightarrow> hval set \<Rightarrow> store \<Rightarrow> bool" where
  "copy_region n0 n1 C h =
     (n1 \<le> length h \<and> (\<forall>b. n0 \<le> b \<longrightarrow> b < n1 \<longrightarrow> (\<forall>v \<in> refs (h ! b). inreg n0 n1 v \<or> v \<in> C)))"

section \<open>Dictionaries and the resolution loop\<close>

lemma map_of_dict_set: "map_of (dict_set k v d) = (map_of d)(k \<mapsto> v)"
  by (induction d) auto

lemma keys_dict_set: "fst ` set (dict_set k v d) = insert k (fst ` set d)"
  by (induction d) force+

lemma distinct_dict_set: "distinct (map fst d) \<Longrightarrow> distinct (map fst (dict_set k v d))"
  by (induction d) (auto simp: keys_dict_set)

lemma resolve_loop_append:
  "resolve_loop self stack (pre @ rest) acc w =
     (case resolve_loop self stack pre acc w of
        (Inl e, w1) \<Rightarrow> (Inl e, w1)
      | (Inr acc', w1) \<Rightarrow> resolve_loop self stack rest acc' w1)"
  by (induction pre arbitrary: acc w) (auto split: prod.splits sum.splits)

lemma set_dict_set: "x \<in> set (dict_set k v d) \<Longrightarrow> x = (k, v) \<or> x \<in> set d"
  by (induction d) (auto split: if_splits)

lemma all_bool_dict_set:
  "\<forall>(k, v) \<in> set acc. is_bool v \<Longrightarrow> is_bool x \<Longrightarrow> \<forall>(k, v) \<in> set (dict_set c x acc). is_bool v"
  using set_dict_set by fastforce

lemma resolve_loop_bool:
  assumes "\<forall>f w v w'. function_resolve self f w = (Inr v, w') \<longrightarrow> is_bool v"
    and "resolve_loop self stack items acc w = (Inr r, w')"
    and "\<forall>(k, v) \<in> set acc. is_bool v"
  shows "\<forall>(k, v) \<in> set r. is_bool v"
  using assms(2,3)
proof (induction items arbitrary: acc w)
  case Nil
  then show ?case by simp
next
  case (Cons a items)
  obtain c x where a: "a = (c, x)" by (cases a)
  show ?case
  proof (cases "is_bool x")
    case True
    with Cons.prems a have "resolve_loop self stack items (dict_set c x acc) w = (Inr r, w')"
      by simp
    moreover have "\<forall>(k, v) \<in> set (dict_set c x acc). is_bool v"
      using Cons.prems(2) True by (rule all_bool_dict_set)
    ultimately show ?thesis by (rule Cons.IH)
  next
    case False
    with Cons.prems(1) a obtain f w1 v w2 where
      p: "parse_condition self stack x w = (Inr f, w1)" and
      r: "function_resolve self f w1 = (Inr v, w2)" and
      l: "resolve_loop self stack items (dict_set c v acc) w2 = (Inr r, w')"
      by (auto split: prod.splits sum.splits)
    from assms(1) r have "is_bool v" by blast
    with Cons.prems(2) have "\<forall>(k, v) \<in> set (dict_set c v acc). is_bool v"
      by (rule all_bool_dict_set)
    with l show ?thesis by (rule Cons.IH)
  qed
qed

lemma resolve_loop_distinct:
  "resolve_loop self stack items acc w = (Inr r, w') \<Longrightarrow> distinct (map fst acc) \<Longrightarrow>
   distinct (map fst r)"
proof (induction items arbitrary: acc w)
  case Nil
  then show ?case by simp
next
  case (Cons a items)
  obtain c x where a: "a = (c, x)" by (cases a)
  show ?case
  proof (cases "is_bool x")
    case True
    with Cons.prems a have "resolve_loop self stack items (dict_set c x acc) w = (Inr r, w')"
      by simp
    then show ?thesis
      using Cons.prems(2) by (rule Cons.IH [OF _ distinct_dict_set])
  next
    case False
    with Cons.prems(1) a obtain f w1 v w2 where
      "resolve_loop self stack items (dict_set c v acc) w2 = (Inr r, w')"
      by (auto split: prod.splits sum.splits)
    then show ?thesis
      using Cons.prems(2) by (rule Cons.IH [OF _ distinct_dict_set])
  qed
qed

lemma resolve_loop_error:
  "resolve_loop self stack items acc w = (Inl e, w') \<Longrightarrow>
   (\<exists>x wa. parse_condition self stack x wa = (Inl e, w')) \<or>
   (\<exists>f wa. function_resolve self f wa = (Inl e, w'))"
proof (induction items arbitrary: acc w)
  case Nil
  then show ?case by simp
next
  case (Cons a items)
  obtain c x where a: "a = (c, x)" by (cases a)
  show ?case
  proof (cases "is_bool x")
    case True
    with Cons.prems a have "resolve_loop self stack items (dict_set c x acc) w = (Inl e, w')"
      by simp
    then show ?thesis by (rule Cons.IH)
  next
    case False
    show ?thesis
    proof (cases "parse_condition self stack x w")
      case (Pair p w1)
      show ?thesis
      proof (cases p)
        case (Inl e1)
        with Pair False Cons.prems a have "parse_condition self stack x w = (Inl e, w')"
          by simp
        then show ?thesis by blast
      next
        case (Inr f)
        note f = this
        show ?thesis
        proof (cases "function_resolve self f w1")
          case (Pair q w2)
          note q = this
          show ?thesis
          proof (cases q)
            case (Inl e2)
            with q f \<open>parse_condition self stack x w = (p, w1)\<close> False Cons.prems a
            have "function_resolve self f w1 = (Inl e, w')" by simp
            then show ?thesis by blast
          next
            case (Inr v)
            with q f \<open>parse_condition self stack x w = (p, w1)\<close> False Cons.prems a
            have "resolve_loop self stack items (dict_set c v acc) w2 = (Inl e, w')" by simp
            then show ?thesis by (rule Cons.IH)
          qed
        qed
      qed
    qed
  qed
qed

lemma validate_loop_ok: "(\<forall>(k, v) \<in> set cds. is_bool v) \<Longrightarrow> validate_loop cds = Inr ()"
  by (induction cds) auto

lemma validate_loop_raises:
  "\<exists>(k, v) \<in> set cds. \<not> is_bool v \<Longrightarrow>
   \<exists>k v. validate_loop cds = Inl (InvalidConditionDefinition k v) \<and> (k, v) \<in> set cds \<and> \<not> is_bool v"
proof (induction cds)
  case Nil
  then show ?case by simp
next
  case (Cons a cds)
  obtain c x where a: "a = (c, x)" by (cases a)
  show ?case
  proof (cases "is_bool x")
    case True
    with Cons.prems a have "\<exists>(k, v) \<in> set cds. \<not> is_bool v" by auto
    from Cons.IH [OF this] obtain k v where
      "validate_loop cds = Inl (InvalidConditionDefinition k v)" "(k, v) \<in> set cds" "\<not> is_bool v"
      by blast
    with True a show ?thesis by auto
  next
    case False
    with a show ?thesis by auto
  qed
qed

section \<open>The conditions cache\<close>

text \<open>
  Claim C1 says that every entry of the conditions cache is a boolean, whatever the
  evaluator returns. It is not: \<open>resolve_conditions\<close> stores the result of
  \<open>function.resolve\<close> without looking at its type, and \<open>conditions\<close> caches that
  mapping. With the definition \<open>{"c": "yes"}\<close> and an evaluator that returns the
  string, the cache holds the string.
\<close>

theorem conditions_cache_nonboolean_counterexample: "priv_conditions (fst (snd (conditions (example_template [(''c'', VStr ''yes'')] example_resolve) () 0)))
   = Some [(''c'', VStr ''yes'')] \<and> \<not> is_bool (VStr ''yes'')"
  by (simp add: conditions_def resolve_conditions_def example_template_def example_resolve_def)

text \<open>
  Claim C1, amended: when \<open>function.resolve\<close> returns only booleans, a call of
  \<open>conditions\<close> keeps the cache boolean: if every entry of the cache was a boolean
  before the call (in particular if the cache was empty), every entry is one after it.
\<close>

theorem conditions_cache_boolean:
  assumes "\<forall>f w v w'. function_resolve self f w = (Inr v, w') \<longrightarrow> is_bool v"
    and "\<forall>cds. priv_conditions self = Some cds \<longrightarrow> (\<forall>(k, v) \<in> set cds. is_bool v)"
    and "conditions self stack w = (res, self', w')"
  shows "\<forall>cds. priv_conditions self' = Some cds \<longrightarrow> (\<forall>(k, v) \<in> set cds. is_bool v)"
proof (cases "priv_conditions self")
  case None
  show ?thesis
  proof (cases "resolve_conditions self stack w")
    case (Pair r w1)
    show ?thesis
    proof (cases r)
      case (Inl e)
      with None Pair assms(3) have "self' = self" by (simp add: conditions_def)
      with assms(2) show ?thesis by simp
    next
      case (Inr cds)
      with None Pair assms(3) have s: "self' = self\<lparr>priv_conditions := Some cds\<rparr>"
        by (simp add: conditions_def)
      from Pair Inr have "resolve_loop self stack (get_condition_definitions self) [] w = (Inr cds, w1)"
        by (simp add: resolve_conditions_def)
      with assms(1) have "\<forall>(k, v) \<in> set cds. is_bool v"
        by (rule resolve_loop_bool) simp
      with s show ?thesis by simp
    qed
  qed
next
  case (Some cds)
  with assms(3) have "self' = self" by (simp add: conditions_def)
  with assms(2) show ?thesis by simp
qed

theorem conditions_cache_boolean_witness:
  "priv_conditions (fst (snd (conditions (example_template [(''a'', VBool False), (''c'', VStr ''yes'')] truth_resolve) () 0)))
     = Some [(''a'', VBool False), (''c'', VBool True)] \<and>
   list_all (\<lambda>(k, v). is_bool v) [(''a'', VBool False), (''c'', VBool True)]"
proof -
  let ?t = "example_template [(''a'', VBool False), (''c'', VStr ''yes'')] truth_resolve"
  have h1: "\<forall>f w v w'. function_resolve ?t f w = (Inr v, w') \<longrightarrow> is_bool v"
    by (auto simp: example_template_def truth_resolve_def)
  have h2: "\<forall>cds. priv_conditions ?t = Some cds \<longrightarrow> (\<forall>(k, v) \<in> set cds. is_bool v)"
    by (simp add: example_template_def)
  have h3: "conditions ?t () 0 =
              (Inr [(''a'', VBool False), (''c'', VBool True)],
               ?t\<lparr>priv_conditions := Some [(''a'', VBool False), (''c'', VBool True)]\<rparr>, 1)"
    by (simp add: conditions_def resolve_conditions_def example_template_def truth_resolve_def)
  from conditions_cache_boolean [OF h1 h2 h3] h3 show ?thesis
    by simp
qed

text \<open>
  Claim C2: \<open>conditions\<close> is memoized per instance. A first call that returns has run
  \<open>resolve_conditions\<close> on its stack and stored the result in \<open>_conditions\<close>; from
  then on every call, with any stack and in any world, returns that mapping and leaves
  the instance and the world as they are, so neither \<open>resolve_conditions\<close> nor the
  evaluator has run again.
\<close>

theorem conditions_memoized:
  assumes "priv_conditions self = None"
    and "conditions self stack w = (Inr cds, self1, w1)"
  shows "resolve_conditions self stack w = (Inr cds, w1) \<and>
         priv_conditions self1 = Some cds \<and>
         (\<forall>stack' w'. conditions self1 stack' w' = (Inr cds, self1, w'))"
  using assms by (auto simp: conditions_def split: prod.splits sum.splits)

theorem conditions_memoized_witness:
  "conditions (example_template [(''c'', VList [VStr ''not'', VBool False])] example_resolve) () 0 =
     (Inr [(''c'', VBool True)],
      (example_template [(''c'', VList [VStr ''not'', VBool False])] example_resolve)
        \<lparr>priv_conditions := Some [(''c'', VBool True)]\<rparr>, 1) \<and>
   conditions ((example_template [(''c'', VList [VStr ''not'', VBool False])] example_resolve)
        \<lparr>priv_conditions := Some [(''c'', VBool True)]\<rparr>) () 1 =
     (Inr [(''c'', VBool True)],
      (example_template [(''c'', VList [VStr ''not'', VBool False])] example_resolve)
        \<lparr>priv_conditions := Some [(''c'', VBool True)]\<rparr>, 1)"
proof -
  let ?t = "example_template [(''c'', VList [VStr ''not'', VBool False])] example_resolve"
  have h1: "priv_conditions ?t = None"
    by (simp add: example_template_def)
  have h2: "conditions ?t () 0 =
              (Inr [(''c'', VBool True)], ?t\<lparr>priv_conditions := Some [(''c'', VBool True)]\<rparr>, 1)"
    by (simp add: conditions_def resolve_conditions_def example_template_def example_resolve_def)
  from conditions_memoized [OF h1 h2] h2 show ?thesis
    by simp
qed

text \<open>
  Claim C3: when the evaluator fails on a condition (in \<open>parse_condition\<close> or in
  \<open>function.resolve\<close>), after the definitions before it were resolved,
  \<open>resolve_conditions\<close> ends with that very error, \<open>conditions\<close> raises it too, and
  the cache of the instance stays \<open>None\<close>: nothing resolved earlier in the call is kept.
\<close>

theorem evaluator_failure_not_cached:
  assumes "get_condition_definitions self = pre @ (cd_key, cd_value) # post"
    and "resolve_loop self stack pre [] w = (Inr partial, w1)"
    and "\<not> is_bool cd_value"
    and "parse_condition self stack cd_value w1 = (Inl e, w2) \<or>
         (\<exists>f w1'. parse_condition self stack cd_value w1 = (Inr f, w1') \<and>
                   function_resolve self f w1' = (Inl e, w2))"
    and "priv_conditions self = None"
  shows "resolve_conditions self stack w = (Inl e, w2) \<and>
         conditions self stack w = (Inl e, self, w2) \<and>
         priv_conditions (fst (snd (conditions self stack w))) = None"
proof -
  have "resolve_loop self stack ((cd_key, cd_value) # post) partial w1 = (Inl e, w2)"
    using assms(3,4) by auto
  then have "resolve_conditions self stack w = (Inl e, w2)"
    using assms(1,2) by (simp add: resolve_conditions_def resolve_loop_append)
  then show ?thesis using assms(5) by (simp add: conditions_def)
qed

theorem evaluator_failure_not_cached_witness:
  "conditions (example_template [(''a'', VStr ''yes''), (''b'', VNone), (''c'', VBool True)] example_resolve) () 0 =
     (Inl (OtherError ''cannot resolve''),
      example_template [(''a'', VStr ''yes''), (''b'', VNone), (''c'', VBool True)] example_resolve, 2) \<and>
   priv_conditions (fst (snd (conditions
      (example_template [(''a'', VStr ''yes''), (''b'', VNone), (''c'', VBool True)] example_resolve) () 0))) = None"
proof -
  let ?t = "example_template [(''a'', VStr ''yes''), (''b'', VNone), (''c'', VBool True)] example_resolve"
  have h1: "get_condition_definitions ?t = [(''a'', VStr ''yes'')] @ (''b'', VNone) # [(''c'', VBool True)]"
    by (simp add: example_template_def)
  have h2: "resolve_loop ?t () [(''a'', VStr ''yes'')] [] 0 = (Inr [(''a'', VStr ''yes'')], 1)"
    by (simp add: example_template_def example_resolve_def)
  have h3: "\<not> is_bool VNone" by simp
  have h4: "parse_condition ?t () VNone 1 = (Inl (OtherError ''cannot resolve''), 2) \<or>
            (\<exists>f w1'. parse_condition ?t () VNone 1 = (Inr f, w1') \<and>
                function_resolve ?t f w1' = (Inl (OtherError ''cannot resolve''), 2))"
    by (simp add: example_template_def example_resolve_def)
  have h5: "priv_conditions ?t = None"
    by (simp add: example_template_def)
  from evaluator_failure_not_cached [OF h1 h2 h3 h4 h5] h5 show ?thesis
    by simp
qed

section \<open>Validation of condition definitions\<close>

text \<open>
  Claim C4: \<open>validate_condition_definitions\<close> resolves the conditions and raises
  \<open>InvalidConditionDefinition\<close> with the name and the resolved value of a condition that
  is not a boolean whenever there is one; it raises nothing when all resolved values are
  booleans. \<open>resolve_conditions\<close> itself returns the mapping with the non-boolean in
  it: the only errors that leave it are those \<open>parse_condition\<close> or
  \<open>function.resolve\<close> raised, which \<open>validate_condition_definitions\<close> passes on.
\<close>

theorem validate_condition_definitions_nonboolean:
  "(resolve_conditions self stack w = (Inr cds, w1) \<longrightarrow> (\<exists>(k, v) \<in> set cds. \<not> is_bool v) \<longrightarrow>
      (\<exists>k v. validate_condition_definitions self stack w =
                 (Inl (InvalidConditionDefinition k v), w1) \<and>
              map_of cds k = Some v \<and> \<not> is_bool v)) \<and>
   (resolve_conditions self stack w = (Inr cds, w1) \<longrightarrow> (\<forall>(k, v) \<in> set cds. is_bool v) \<longrightarrow>
      validate_condition_definitions self stack w = (Inr (), w1)) \<and>
   (resolve_conditions self stack w = (Inl e, w1) \<longrightarrow>
      validate_condition_definitions self stack w = (Inl e, w1) \<and>
      ((\<exists>x wa. parse_condition self stack x wa = (Inl e, w1)) \<or>
       (\<exists>f wa. function_resolve self f wa = (Inl e, w1))))"
proof (intro conjI impI)
  assume r: "resolve_conditions self stack w = (Inr cds, w1)"
    and nb: "\<exists>(k, v) \<in> set cds. \<not> is_bool v"
  from nb have ne: "cds \<noteq> []" by auto
  from r have "distinct (map fst cds)"
    unfolding resolve_conditions_def Let_def by (rule resolve_loop_distinct) simp
  moreover from validate_loop_raises [OF nb] obtain k v where
    kv: "validate_loop cds = Inl (InvalidConditionDefinition k v)" "(k, v) \<in> set cds" "\<not> is_bool v"
    by blast
  ultimately have "map_of cds k = Some v" by simp
  with kv r ne show "\<exists>k v. validate_condition_definitions self stack w =
                 (Inl (InvalidConditionDefinition k v), w1) \<and>
              map_of cds k = Some v \<and> \<not> is_bool v"
    by (auto simp: validate_condition_definitions_def)
next
  assume r: "resolve_conditions self stack w = (Inr cds, w1)"
    and b: "\<forall>(k, v) \<in> set cds. is_bool v"
  from validate_loop_ok [OF b] r
  show "validate_condition_definitions self stack w = (Inr (), w1)"
    by (simp add: validate_condition_definitions_def)
next
  assume r: "resolve_conditions self stack w = (Inl e, w1)"
  then show "validate_condition_definitions self stack w = (Inl e, w1)"
    by (simp add: validate_condition_definitions_def)
  from r show "(\<exists>x wa. parse_condition self stack x wa = (Inl e, w1)) \<or>
       (\<exists>f wa. function_resolve self f wa = (Inl e, w1))"
    unfolding resolve_conditions_def Let_def by (rule resolve_loop_error)
qed

theorem validate_condition_definitions_nonboolean_witness:
  "resolve_conditions (example_template [(''a'', VBool True), (''c'', VStr ''yes'')] example_resolve) () 0 =
     (Inr [(''a'', VBool True), (''c'', VStr ''yes'')], 1) \<and>
   validate_condition_definitions
       (example_template [(''a'', VBool True), (''c'', VStr ''yes'')] example_resolve) () 0 =
     (Inl (InvalidConditionDefinition ''c'' (VStr ''yes'')), 1) \<and>
   validate_condition_definitions
       (example_template [(''a'', VBool True), (''c'', VStr ''yes'')] truth_resolve) () 0 =
     (Inr (), 1) \<and>
   validate_condition_definitions
       (example_template [(''a'', VBool True), (''c'', VNone)] example_resolve) () 0 =
     (Inl (OtherError ''cannot resolve''), 1)"
proof -
  let ?t = "example_template [(''a'', VBool True), (''c'', VStr ''yes'')] example_resolve"
  let ?u = "example_template [(''a'', VBool True), (''c'', VStr ''yes'')] truth_resolve"
  let ?v = "example_template [(''a'', VBool True), (''c'', VNone)] example_resolve"
  have t: "resolve_conditions ?t () 0 = (Inr [(''a'', VBool True), (''c'', VStr ''yes'')], 1)"
    by (simp add: resolve_conditions_def example_template_def example_resolve_def)
  have u: "resolve_conditions ?u () 0 = (Inr [(''a'', VBool True), (''c'', VBool True)], 1)"
    by (simp add: resolve_conditions_def example_template_def truth_resolve_def)
  have v: "resolve_conditions ?v () 0 = (Inl (OtherError ''cannot resolve''), 1)"
    by (simp add: resolve_conditions_def example_template_def example_resolve_def)
  have nb: "\<exists>(k, v) \<in> set [(''a'', VBool True), (''c'', VStr ''yes'')]. \<not> is_bool v" by simp
  have b: "\<forall>(k, v) \<in> set [(''a'', VBool True), (''c'', VBool True)]. is_bool v" by simp
  from validate_condition_definitions_nonboolean
         [of ?t "()" 0 "[(''a'', VBool True), (''c'', VStr ''yes'')]" 1] t nb
  have 1: "validate_condition_definitions ?t () 0 =
             (Inl (InvalidConditionDefinition ''c'' (VStr ''yes'')), 1)"
    by (auto split: if_splits)
  from validate_condition_definitions_nonboolean
         [of ?u "()" 0 "[(''a'', VBool True), (''c'', VBool True)]" 1] u b
  have 2: "validate_condition_definitions ?u () 0 = (Inr (), 1)"
    by simp
  from validate_condition_definitions_nonboolean
         [of ?v "()" 0 _ 1 "OtherError ''cannot resolve''"] v
  have 3: "validate_condition_definitions ?v () 0 = (Inl (OtherError ''cannot resolve''), 1)"
    by simp
  from t 1 2 3 show ?thesis by simp
qed

section \<open>Key types of a resource definition\<close>

text \<open>
  Claim C5: \<open>validate_resource_key_type\<close> returns \<open>False\<close> when the key is not in the
  data, \<open>True\<close> when the value under the key is an instance of one of the valid
  types, and raises a \<open>TypeError\<close> whose message holds the resource name, the key and
  the type name when it is not.
\<close>

theorem validate_resource_key_type_cases:
  "(map_of rsrc_data key = None \<longrightarrow>
      validate_resource_key_type key valid_types typename rsrc_name rsrc_data = Inr False) \<and>
   (map_of rsrc_data key = Some v \<longrightarrow> isinstance v valid_types \<longrightarrow>
      validate_resource_key_type key valid_types typename rsrc_name rsrc_data = Inr True) \<and>
   (map_of rsrc_data key = Some v \<longrightarrow> \<not> isinstance v valid_types \<longrightarrow>
      validate_resource_key_type key valid_types typename rsrc_name rsrc_data =
        Inl (TypeError (''Resource '' @ rsrc_name @ '' '' @ key @ '' type must be '' @ typename)))"
  by (simp add: validate_resource_key_type_def)

theorem validate_resource_key_type_cases_witness:
  "validate_resource_key_type ''properties'' [TMapping, TFunction] ''object'' ''server''
     [(''type'', Plain (VStr ''OS::Nova::Server''))] = Inr False \<and>
   validate_resource_key_type ''properties'' [TMapping, TFunction] ''object'' ''server''
     [(''type'', Plain (VStr ''OS::Nova::Server'')),
      (''properties'', FunctionObj ''get_param'' (VStr ''props''))] = Inr True \<and>
   validate_resource_key_type ''properties'' [TMapping, TFunction] ''object'' ''server''
     [(''type'', Plain (VStr ''OS::Nova::Server'')),
      (''properties'', Plain (VList []))] =
     Inl (TypeError ''Resource server properties type must be object'')"
proof -
  let ?d0 = "[(''type'', Plain (VStr ''OS::Nova::Server''))]"
  let ?d1 = "[(''type'', Plain (VStr ''OS::Nova::Server'')),
      (''properties'', FunctionObj ''get_param'' (VStr ''props''))]"
  let ?d2 = "[(''type'', Plain (VStr ''OS::Nova::Server'')),
      (''properties'', Plain (VList []))]"
  have a: "map_of ?d0 ''properties'' = None" by simp
  have b: "map_of ?d1 ''properties'' = Some (FunctionObj ''get_param'' (VStr ''props''))" by simp
  have b': "isinstance (FunctionObj ''get_param'' (VStr ''props'')) [TMapping, TFunction]"
    by (simp add: isinstance_def)
  have c: "map_of ?d2 ''properties'' = Some (Plain (VList []))" by simp
  have c': "\<not> isinstance (Plain (VList [])) [TMapping, TFunction]"
    by (simp add: isinstance_def)
  from validate_resource_key_type_cases [of ?d0 "''properties''" "[TMapping, TFunction]" "''object''" "''server''"] a
  have 1: "validate_resource_key_type ''properties'' [TMapping, TFunction] ''object'' ''server'' ?d0 = Inr False"
    by blast
  from validate_resource_key_type_cases [of ?d1 "''properties''" "[TMapping, TFunction]" "''object''" "''server''"] b b'
  have 2: "validate_resource_key_type ''properties'' [TMapping, TFunction] ''object'' ''server'' ?d1 = Inr True"
    by blast
  from validate_resource_key_type_cases [of ?d2 "''properties''" "[TMapping, TFunction]" "''object''" "''server''"] c c'
  have 3: "validate_resource_key_type ''properties'' [TMapping, TFunction] ''object'' ''server'' ?d2 =
     Inl (TypeError ''Resource server properties type must be object'')"
    by simp
  from 1 2 3 show ?thesis by simp
qed

section \<open>Looking a condition up\<close>

text \<open>
  Claim C8: a snippet with a condition section that names a condition missing from the
  resolved conditions makes \<open>get_condition\<close> raise \<open>InvalidConditionReference\<close> with
  that name and the path it was given; \<open>get_res_condition\<close> gives the path
  \<open>RESOURCES.<res_name>.RES_CONDITION\<close> and \<open>get_output_condition\<close> the path
  \<open>OUTPUTS.<o_key>.OUTPUT_CONDITION\<close>, which with the section names of the spec are
  \<open>resources.<res_name>.condition\<close> and \<open>outputs.<o_key>.condition\<close>.
\<close>

theorem undefined_condition_reference:
  assumes "has_condition_section self snippet"
    and "py_getitem snippet (CONDITION self) = Inr (VStr name)"
    and "conditions self stack w = (Inr cds, self1, w1)"
    and "map_of cds name = None"
  shows "get_condition self snippet stack path w =
           (Inl (InvalidConditionReference (VStr name) path), self1, w1) \<and>
         get_res_condition self stack snippet res_name w =
           (Inl (InvalidConditionReference (VStr name)
                   (RESOURCES self @ ''.'' @ res_name @ ''.'' @ RES_CONDITION self)), self1, w1) \<and>
         get_output_condition self stack snippet o_key w =
           (Inl (InvalidConditionReference (VStr name)
                   (OUTPUTS self @ ''.'' @ o_key @ ''.'' @ OUTPUT_CONDITION self)), self1, w1)"
proof -
  have g: "get_condition self snippet stack p w =
             (Inl (InvalidConditionReference (VStr name) p), self1, w1)" for p
    using assms by (simp add: get_condition_def)
  show ?thesis
    using assms(1) by (simp add: g get_res_condition_def get_output_condition_def)
qed

theorem undefined_condition_reference_witness:
  "get_res_condition (example_template [(''condA'', VBool False)] example_resolve) ()
       (example_snippet ''condZ'') ''server'' 0 =
     (Inl (InvalidConditionReference (VStr ''condZ'') ''resources.server.condition''),
      (example_template [(''condA'', VBool False)] example_resolve)
        \<lparr>priv_conditions := Some [(''condA'', VBool False)]\<rparr>, 0) \<and>
   get_output_condition (example_template [(''condA'', VBool False)] example_resolve) ()
       (example_snippet ''condZ'') ''out1'' 0 =
     (Inl (InvalidConditionReference (VStr ''condZ'') ''outputs.out1.condition''),
      (example_template [(''condA'', VBool False)] example_resolve)
        \<lparr>priv_conditions := Some [(''condA'', VBool False)]\<rparr>, 0)"
proof -
  let ?t = "example_template [(''condA'', VBool False)] example_resolve"
  have h1: "has_condition_section ?t (example_snippet ''condZ'')"
    by (simp add: example_template_def example_snippet_def)
  have h2: "py_getitem (example_snippet ''condZ'') (CONDITION ?t) = Inr (VStr ''condZ'')"
    by (simp add: example_template_def example_snippet_def)
  have h3: "conditions ?t () 0 =
              (Inr [(''condA'', VBool False)], ?t\<lparr>priv_conditions := Some [(''condA'', VBool False)]\<rparr>, 0)"
    by (simp add: conditions_def resolve_conditions_def example_template_def)
  have h4: "map_of [(''condA'', VBool False)] ''condZ'' = None"
    by simp
  have c: "RESOURCES ?t = ''resources''" "RES_CONDITION ?t = ''condition''"
    "OUTPUTS ?t = ''outputs''" "OUTPUT_CONDITION ?t = ''condition''"
    by (simp_all add: example_template_def)
  from undefined_condition_reference [OF h1 h2 h3 h4, of _ "''server''" "''out1''"]
  show ?thesis
    by (simp add: c)
qed

text \<open>
  Claim C9: for a snippet without a condition section \<open>get_condition\<close> returns \<open>True\<close>,
  raises nothing and touches neither the instance nor the world; for a snippet whose
  condition section names a condition of the resolved mapping it returns the value
  stored there.
\<close>

theorem get_condition_value:
  "(\<not> has_condition_section self snippet \<longrightarrow>
      get_condition self snippet stack path w = (Inr (VBool True), self, w)) \<and>
   (has_condition_section self snippet \<longrightarrow>
    py_getitem snippet (CONDITION self) = Inr (VStr name) \<longrightarrow>
    conditions self stack w = (Inr cds, self1, w1) \<longrightarrow>
    map_of cds name = Some cd \<longrightarrow>
      get_condition self snippet stack path w = (Inr cd, self1, w1))"
  by (simp add: get_condition_def)

theorem get_condition_value_witness:
  "get_condition (example_template [(''condA'', VBool False)] example_resolve)
       (VDict [(''value'', VStr ''x'')]) () ''outputs.out1.condition'' 0 =
     (Inr (VBool True), example_template [(''condA'', VBool False)] example_resolve, 0) \<and>
   get_condition (example_template [(''condA'', VBool False)] example_resolve)
       (example_snippet ''condA'') () ''outputs.out1.condition'' 0 =
     (Inr (VBool False),
      (example_template [(''condA'', VBool False)] example_resolve)
        \<lparr>priv_conditions := Some [(''condA'', VBool False)]\<rparr>, 0)"
proof -
  let ?t = "example_template [(''condA'', VBool False)] example_resolve"
  have n: "\<not> has_condition_section ?t (VDict [(''value'', VStr ''x'')])"
    by (simp add: example_template_def)
  have h1: "has_condition_section ?t (example_snippet ''condA'')"
    by (simp add: example_template_def example_snippet_def)
  have h2: "py_getitem (example_snippet ''condA'') (CONDITION ?t) = Inr (VStr ''condA'')"
    by (simp add: example_template_def example_snippet_def)
  have h3: "conditions ?t () 0 =
              (Inr [(''condA'', VBool False)], ?t\<lparr>priv_conditions := Some [(''condA'', VBool False)]\<rparr>, 0)"
    by (simp add: conditions_def resolve_conditions_def example_template_def)
  have h4: "map_of [(''condA'', VBool False)] ''condA'' = Some (VBool False)"
    by simp
  from get_condition_value [of ?t "VDict [(''value'', VStr ''x'')]" "()" "''outputs.out1.condition''" 0] n
  have 1: "get_condition ?t (VDict [(''value'', VStr ''x'')]) () ''outputs.out1.condition'' 0 =
             (Inr (VBool True), ?t, 0)"
    by blast
  from get_condition_value [of ?t "example_snippet ''condA''" "()" "''outputs.out1.condition''" 0
                               "''condA''" "[(''condA'', VBool False)]" _ 0 "VBool False"] h1 h2 h3 h4
  have 2: "get_condition ?t (example_snippet ''condA'') () ''outputs.out1.condition'' 0 =
     (Inr (VBool False), ?t\<lparr>priv_conditions := Some [(''condA'', VBool False)]\<rparr>, 0)"
    by blast
  from 1 2 show ?thesis by simp
qed

section \<open>The copy and the original\<close>

lemma fresh_mono: "fresh n0 h v \<Longrightarrow> length h \<le> length h' \<Longrightarrow> fresh n0 h' v"
  by (auto simp: fresh_def split: hval.splits)

lemma refs_dict_set: "u \<in> refs (ODict (dict_set k v d)) \<Longrightarrow> u = v \<or> u \<in> refs (ODict d)"
  using set_dict_set [of _ k v d] by force

lemma closed_from_append:
  assumes "closed_from n0 h" and "\<forall>v \<in> refs obj. fresh n0 (h @ [obj]) v"
  shows "closed_from n0 (h @ [obj])"
  unfolding closed_from_def
proof (intro allI impI ballI)
  fix b v
  assume b: "n0 \<le> b" "b < length (h @ [obj])" and v: "v \<in> refs ((h @ [obj]) ! b)"
  show "fresh n0 (h @ [obj]) v"
  proof (cases "b < length h")
    case True
    with v have "v \<in> refs (h ! b)" by (simp add: nth_append)
    with assms(1) b(1) True have "fresh n0 h v" by (simp add: closed_from_def)
    then show ?thesis by (rule fresh_mono) simp
  next
    case False
    with b(2) have "b = length h" by simp
    with v assms(2) show ?thesis by simp
  qed
qed

lemma closed_from_update:
  assumes "closed_from n0 h" and "\<forall>v \<in> refs obj. fresh n0 h v"
  shows "closed_from n0 (h[y := obj])"
  unfolding closed_from_def
proof (intro allI impI ballI)
  fix b v
  assume b: "n0 \<le> b" "b < length (h[y := obj])" and v: "v \<in> refs (h[y := obj] ! b)"
  have "fresh n0 h v"
  proof (cases "b = y")
    case True
    with b(2) v assms(2) show ?thesis by simp
  next
    case False
    with v have "v \<in> refs (h ! b)" by simp
    with assms(1) b show ?thesis by (simp add: closed_from_def)
  qed
  then show "fresh n0 (h[y := obj]) v" by (rule fresh_mono) simp
qed

lemma closed_from_refs:
  "closed_from n0 h \<Longrightarrow> n0 \<le> b \<Longrightarrow> b < length h \<Longrightarrow> v \<in> refs (h ! b) \<Longrightarrow> fresh n0 h v"
  by (simp add: closed_from_def)

lemma memo_ok_mono: "memo_ok n0 h memo \<Longrightarrow> length h \<le> length h' \<Longrightarrow> memo_ok n0 h' memo"
  by (fastforce simp: memo_ok_def)

lemma dc_inv_list_append:
  assumes "dc_inv h0 memo h" and "length h0 \<le> y" and "fresh (length h0) h v"
  shows "dc_inv h0 memo (list_append h y v)"
proof (cases "store_get h y")
  case None
  with assms(1) show ?thesis by (simp add: list_append_def)
next
  case (Some obj)
  then have y: "y < length h" "h ! y = obj" by (auto simp: store_get_def split: if_splits)
  show ?thesis
  proof (cases obj)
    case (ODict d)
    with Some assms(1) show ?thesis by (simp add: list_append_def)
  next
    case (OList xs)
    from assms(1) have c: "closed_from (length h0) h" by (simp add: dc_inv_def)
    have "\<forall>u \<in> refs (OList (xs @ [v])). fresh (length h0) h u"
      using closed_from_refs [OF c assms(2) y(1)] y(2) OList assms(3) by auto
    with c have "closed_from (length h0) (h[y := OList (xs @ [v])])"
      by (rule closed_from_update)
    with assms(1,2) Some OList show ?thesis
      by (simp add: list_append_def dc_inv_def memo_ok_def)
  qed
qed

lemma dc_inv_dict_setitem:
  assumes "dc_inv h0 memo h" and "length h0 \<le> y" and "fresh (length h0) h v"
  shows "dc_inv h0 memo (dict_setitem h y k v)"
proof (cases "store_get h y")
  case None
  with assms(1) show ?thesis by (simp add: dict_setitem_def)
next
  case (Some obj)
  then have y: "y < length h" "h ! y = obj" by (auto simp: store_get_def split: if_splits)
  show ?thesis
  proof (cases obj)
    case (OList xs)
    with Some assms(1) show ?thesis by (simp add: dict_setitem_def)
  next
    case (ODict d)
    from assms(1) have c: "closed_from (length h0) h" by (simp add: dc_inv_def)
    have "\<forall>u \<in> refs (ODict (dict_set k v d)). fresh (length h0) h u"
      using closed_from_refs [OF c assms(2) y(1)] y(2) ODict assms(3) refs_dict_set [of _ k v d]
      by metis
    with c have "closed_from (length h0) (h[y := ODict (dict_set k v d)])"
      by (rule closed_from_update)
    with assms(1,2) Some ODict show ?thesis
      by (simp add: dict_setitem_def dc_inv_def memo_ok_def)
  qed
qed

lemma length_list_append [simp]: "length (list_append h y v) = length h"
  by (simp add: list_append_def split: option.splits hobj.splits)

lemma length_dict_setitem [simp]: "length (dict_setitem h y k v) = length h"
  by (simp add: dict_setitem_def split: option.splits hobj.splits)

lemma finite_unvisited [simp]: "finite (unvisited h0 memo)"
  by (simp add: unvisited_def)

lemma unvisited_Cons: "unvisited h0 ((x, y) # memo) = unvisited h0 memo - {x}"
  by (auto simp: unvisited_def)

lemma card_unvisited_Cons:
  assumes "x < length h0" and "map_of memo x = None" and "card (unvisited h0 memo) \<le> Suc n"
  shows "card (unvisited h0 ((x, y) # memo)) \<le> n"
proof -
  from assms(1,2) have "x \<in> unvisited h0 memo"
    by (simp add: unvisited_def map_of_eq_None_iff)
  then have "card (unvisited h0 memo - {x}) = card (unvisited h0 memo) - 1"
    by simp
  with assms(3) show ?thesis by (simp add: unvisited_Cons)
qed

lemma card_unvisited_mono:
  "fst ` set memo \<subseteq> fst ` set memo' \<Longrightarrow> card (unvisited h0 memo') \<le> card (unvisited h0 memo)"
  by (rule card_mono) (auto simp: unvisited_def)

lemma unvisited_fuel:
  assumes "x < length h0" and "map_of memo x = None" and "card (unvisited h0 memo) \<le> fuel"
  shows "\<exists>n. fuel = Suc n"
proof -
  from assms(1,2) have "x \<in> unvisited h0 memo"
    by (simp add: unvisited_def map_of_eq_None_iff)
  then have "0 < card (unvisited h0 memo)"
    by (auto simp: card_gt_0_iff)
  with assms(3) show ?thesis by (cases fuel) auto
qed

lemma dc_inv_alloc:
  assumes "dc_inv h0 memo h" and "x < length h0" and "refs obj = {}"
  shows "dc_inv h0 ((x, length h) # memo) (h @ [obj])"
proof -
  from assms(1) have l: "length h0 \<le> length h" and t: "take (length h0) h = h0"
    and c: "closed_from (length h0) h" and m: "memo_ok (length h0) h memo"
    by (simp_all add: dc_inv_def)
  from c have "closed_from (length h0) (h @ [obj])"
    by (rule closed_from_append) (simp add: assms(3))
  moreover from m have "memo_ok (length h0) (h @ [obj]) memo"
    by (rule memo_ok_mono) simp
  ultimately show ?thesis
    using l t assms(2) by (simp add: dc_inv_def memo_ok_def)
qed

lemma wf_store_refs:
  "wf_store h0 \<Longrightarrow> x < length h0 \<Longrightarrow> v \<in> refs (h0 ! x) \<Longrightarrow> valid_ref h0 v"
  by (simp add: wf_store_def list_all_length)

lemma dc_inv_old:
  assumes "dc_inv h0 memo h" and "x < length h0"
  shows "store_get h x = Some (h0 ! x)"
proof -
  from assms(1) have l: "length h0 \<le> length h" and t: "take (length h0) h = h0"
    by (simp_all add: dc_inv_def)
  have "take (length h0) h ! x = h ! x"
    using assms(2) by (rule nth_take)
  then have "h ! x = h0 ! x"
    by (simp only: t)
  with l assms(2) show ?thesis by (simp add: store_get_def)
qed

lemma memo_hit_fresh:
  "dc_inv h0 memo h \<Longrightarrow> map_of memo x = Some y \<Longrightarrow> fresh (length h0) h (HRef y)"
  by (auto simp: dc_inv_def memo_ok_def fresh_def dest!: map_of_SomeD)

lemma deepcopy_st_total:
  assumes wf: "wf_store h0"
  shows "dc_inv h0 memo h \<Longrightarrow> valid_ref h0 v \<Longrightarrow> card (unvisited h0 memo) \<le> fuel \<Longrightarrow>
           \<exists>v' memo' h'. deepcopy_st fuel v memo h = Some (v', memo', h') \<and> dc_inv h0 memo' h' \<and>
              fresh (length h0) h' v' \<and> set memo \<subseteq> set memo'"
    and "dc_inv h0 memo h \<Longrightarrow> \<forall>v \<in> set xs. valid_ref h0 v \<Longrightarrow> card (unvisited h0 memo) \<le> n \<Longrightarrow>
           length h0 \<le> y \<Longrightarrow>
           \<exists>memo' h'. deepcopy_list_st n xs y memo h = Some (memo', h') \<and> dc_inv h0 memo' h' \<and>
              set memo \<subseteq> set memo'"
    and "dc_inv h0 memo h \<Longrightarrow> \<forall>v \<in> snd ` set d. valid_ref h0 v \<Longrightarrow> card (unvisited h0 memo) \<le> n \<Longrightarrow>
           length h0 \<le> y \<Longrightarrow>
           \<exists>memo' h'. deepcopy_dict_st n d y memo h = Some (memo', h') \<and> dc_inv h0 memo' h' \<and>
              set memo \<subseteq> set memo'"
proof (induction fuel v memo h and n xs y memo h and n d y memo h
       rule: deepcopy_st_deepcopy_list_st_deepcopy_dict_st.induct)
  case (1 fuel v memo h)
  show ?case
  proof (cases v)
    case (HRef x)
    with "1.prems"(2) have x: "x < length h0" by (simp add: valid_ref_def)
    show ?thesis
    proof (cases "map_of memo x")
      case (Some y)
      with HRef memo_hit_fresh [OF "1.prems"(1) Some] "1.prems"(1) show ?thesis
        by (simp add: deepcopy_st.simps)
    next
      case None
      from unvisited_fuel [OF x None "1.prems"(3)] obtain n where n: "fuel = Suc n" ..
      from dc_inv_old [OF "1.prems"(1) x] have g: "store_get h x = Some (h0 ! x)" .
      from "1.prems"(3) n have c: "card (unvisited h0 ((x, length h) # memo)) \<le> n"
        by (intro card_unvisited_Cons [OF x None]) simp
      from "1.prems"(1) have l: "length h0 \<le> length h" by (simp add: dc_inv_def)
      show ?thesis
      proof (cases "h0 ! x")
        case (ODict d)
        have i: "dc_inv h0 ((x, length h) # memo) (h @ [ODict []])"
          using "1.prems"(1) x by (rule dc_inv_alloc) simp
        have v: "\<forall>v \<in> snd ` set d. valid_ref h0 v"
          using wf_store_refs [OF wf x] ODict by simp
        from "1.IH"(1) [OF HRef None n g ODict refl i v c l] obtain memo' h' where
          r: "deepcopy_dict_st n d (length h) ((x, length h) # memo) (h @ [ODict []]) = Some (memo', h')"
          and i': "dc_inv h0 memo' h'" and s: "set ((x, length h) # memo) \<subseteq> set memo'"
          by blast
        from s i' have f: "fresh (length h0) h' (HRef (length h))"
          by (auto simp: dc_inv_def memo_ok_def fresh_def)
        from HRef None n g ODict r i' s f show ?thesis
          by (simp add: deepcopy_st.simps)
      next
        case (OList xs)
        have i: "dc_inv h0 ((x, length h) # memo) (h @ [OList []])"
          using "1.prems"(1) x by (rule dc_inv_alloc) simp
        have v: "\<forall>v \<in> set xs. valid_ref h0 v"
          using wf_store_refs [OF wf x] OList by simp
        from "1.IH"(2) [OF HRef None n g OList refl i v c l] obtain memo' h' where
          r: "deepcopy_list_st n xs (length h) ((x, length h) # memo) (h @ [OList []]) = Some (memo', h')"
          and i': "dc_inv h0 memo' h'" and s: "set ((x, length h) # memo) \<subseteq> set memo'"
          by blast
        from s i' have f: "fresh (length h0) h' (HRef (length h))"
          by (auto simp: dc_inv_def memo_ok_def fresh_def)
        from HRef None n g OList r i' s f show ?thesis
          by (simp add: deepcopy_st.simps)
      qed
    qed
  qed (use "1.prems"(1) in \<open>simp_all add: deepcopy_st.simps fresh_def\<close>)
next
  case (2 n y memo h)
  then show ?case by simp
next
  case (3 n a xs y memo h)
  from "3.prems" have "valid_ref h0 a" by simp
  from "3.IH"(1) [OF "3.prems"(1) this "3.prems"(3)] obtain a' memo1 h1 where
    r: "deepcopy_st n a memo h = Some (a', memo1, h1)" and i: "dc_inv h0 memo1 h1"
    and f: "fresh (length h0) h1 a'" and s: "set memo \<subseteq> set memo1"
    by blast
  have i': "dc_inv h0 memo1 (list_append h1 y a')"
    using i "3.prems"(4) f by (rule dc_inv_list_append)
  have c: "card (unvisited h0 memo1) \<le> n"
    using card_unvisited_mono [OF image_mono [OF s], of h0] "3.prems"(3) by simp
  from "3.prems"(2) have v: "\<forall>v \<in> set xs. valid_ref h0 v" by simp
  from "3.IH"(2) [OF r refl refl i' v c "3.prems"(4)] obtain memo' h' where
    "deepcopy_list_st n xs y memo1 (list_append h1 y a') = Some (memo', h')"
    "dc_inv h0 memo' h'" "set memo1 \<subseteq> set memo'"
    by blast
  with r s show ?case by auto
next
  case (4 n y memo h)
  then show ?case by simp
next
  case (5 n key v d y memo h)
  from "5.prems" have "valid_ref h0 v" by simp
  from "5.IH"(1) [OF "5.prems"(1) this "5.prems"(3)] obtain v' memo1 h1 where
    r: "deepcopy_st n v memo h = Some (v', memo1, h1)" and i: "dc_inv h0 memo1 h1"
    and f: "fresh (length h0) h1 v'" and s: "set memo \<subseteq> set memo1"
    by blast
  have i': "dc_inv h0 memo1 (dict_setitem h1 y key v')"
    using i "5.prems"(4) f by (rule dc_inv_dict_setitem)
  have c: "card (unvisited h0 memo1) \<le> n"
    using card_unvisited_mono [OF image_mono [OF s], of h0] "5.prems"(3) by simp
  from "5.prems"(2) have w: "\<forall>v \<in> snd ` set d. valid_ref h0 v" by simp
  from "5.IH"(2) [OF r refl refl i' w c "5.prems"(4)] obtain memo' h' where
    "deepcopy_dict_st n d y memo1 (dict_setitem h1 y key v') = Some (memo', h')"
    "dc_inv h0 memo' h'" "set memo1 \<subseteq> set memo'"
    by blast
  with r s show ?case by auto
qed

lemma ren_stable: "cov memo v \<Longrightarrow> map_of memo \<subseteq>\<^sub>m map_of memo' \<Longrightarrow> ren memo' v = ren memo v"
  by (cases v) (auto simp: cov_def map_le_def dom_def split: option.splits)

lemma cov_mono: "cov memo v \<Longrightarrow> map_of memo \<subseteq>\<^sub>m map_of memo' \<Longrightarrow> cov memo' v"
  by (cases v) (auto simp: cov_def map_le_def dom_def split: option.splits)

lemma ren_obj_stable:
  assumes "\<forall>u \<in> refs obj. cov memo u" and "map_of memo \<subseteq>\<^sub>m map_of memo'"
  shows "ren_obj memo' obj = ren_obj memo obj"
proof (cases obj)
  case (ODict d)
  with assms show ?thesis by (fastforce intro: ren_stable)
next
  case (OList xs)
  with assms show ?thesis by (auto intro: ren_stable)
qed

lemma dict_set_new: "k \<notin> fst ` set d \<Longrightarrow> dict_set k v d = d @ [(k, v)]"
  by (induction d) auto

lemma map_le_Cons: "map_of memo x = None \<Longrightarrow> map_of memo \<subseteq>\<^sub>m map_of ((x, y) # memo)"
  by (auto simp: map_le_def dom_def)

lemma copied_trans:
  assumes 1: "copied h0 memo n memo1 h1" and 2: "copied h0 memo1 n1 memo' h'"
    and le: "map_of memo1 \<subseteq>\<^sub>m map_of memo'" and n: "n \<le> n1"
    and frame: "\<forall>b. n \<le> b \<longrightarrow> b < length h1 \<longrightarrow> h' ! b = h1 ! b"
    and len: "length h1 \<le> length h'"
  shows "copied h0 memo n memo' h'"
  unfolding copied_def
proof (intro allI impI)
  fix x y
  assume m': "map_of memo' x = Some y" and m: "map_of memo x = None"
  show "n \<le> y \<and> store_get h' y = Some (ren_obj memo' (h0 ! x)) \<and> (\<forall>u \<in> refs (h0 ! x). cov memo' u)"
  proof (cases "map_of memo1 x")
    case None
    with 2 m' have "n1 \<le> y \<and> store_get h' y = Some (ren_obj memo' (h0 ! x)) \<and>
        (\<forall>u \<in> refs (h0 ! x). cov memo' u)"
      unfolding copied_def by blast
    with n show ?thesis by simp
  next
    case (Some y1)
    with le m' have y: "y1 = y" by (auto simp: map_le_def dom_def)
    from 1 Some m y have a: "n \<le> y" and b: "store_get h1 y = Some (ren_obj memo1 (h0 ! x))"
      and c: "\<forall>u \<in> refs (h0 ! x). cov memo1 u"
      by (auto simp: copied_def)
    from b have y1: "y < length h1" "h1 ! y = ren_obj memo1 (h0 ! x)"
      by (auto simp: store_get_def split: if_splits)
    with frame a have "h' ! y = ren_obj memo1 (h0 ! x)" by simp
    also have "\<dots> = ren_obj memo' (h0 ! x)"
      using ren_obj_stable [OF c le] by simp
    finally have "store_get h' y = Some (ren_obj memo' (h0 ! x))"
      using y1(1) len by (simp add: store_get_def)
    moreover have "\<forall>u \<in> refs (h0 ! x). cov memo' u"
      using c le by (auto intro: cov_mono)
    ultimately show ?thesis using a by simp
  qed
qed

lemma list_append_nth:
  "list_append h y v ! b = (if b = y then (case store_get h y of
       Some (OList xs) \<Rightarrow> OList (xs @ [v]) | _ \<Rightarrow> h ! b) else h ! b)"
  by (auto simp: list_append_def store_get_def split: option.splits hobj.splits if_splits)

lemma dict_setitem_nth:
  "dict_setitem h y k v ! b = (if b = y then (case store_get h y of
       Some (ODict d) \<Rightarrow> ODict (dict_set k v d) | _ \<Rightarrow> h ! b) else h ! b)"
  by (auto simp: dict_setitem_def store_get_def split: option.splits hobj.splits if_splits)

lemma copied_alloc:
  assumes q: "copied h0 ((x, length h) # memo) (Suc (length h)) memo' h'"
    and le: "map_of ((x, length h) # memo) \<subseteq>\<^sub>m map_of memo'"
    and y: "h' ! length h = ren_obj memo' (h0 ! x)" "length h < length h'"
    and c: "\<forall>u \<in> refs (h0 ! x). cov memo' u"
  shows "copied h0 memo (length h) memo' h'"
  unfolding copied_def
proof (intro allI impI)
  fix x0 y0
  assume m': "map_of memo' x0 = Some y0" and m: "map_of memo x0 = None"
  show "length h \<le> y0 \<and> store_get h' y0 = Some (ren_obj memo' (h0 ! x0)) \<and>
        (\<forall>u \<in> refs (h0 ! x0). cov memo' u)"
  proof (cases "x0 = x")
    case True
    from le have "map_of memo' x = Some (length h)" by (auto simp: map_le_def dom_def)
    with m' True have "y0 = length h" by simp
    with True y c show ?thesis by (simp add: store_get_def)
  next
    case False
    with m have "map_of ((x, length h) # memo) x0 = None" by simp
    with q m' have "Suc (length h) \<le> y0 \<and> store_get h' y0 = Some (ren_obj memo' (h0 ! x0)) \<and>
        (\<forall>u \<in> refs (h0 ! x0). cov memo' u)"
      unfolding copied_def by blast
    then show ?thesis by simp
  qed
qed

lemma copied_refl: "copied h0 memo n memo h"
  by (simp add: copied_def)

lemma deepcopy_st_iso:
  assumes wf: "wf_store h0" and dk: "list_all keys_distinct h0"
  shows "dc_inv h0 memo h \<Longrightarrow> valid_ref h0 v \<Longrightarrow> card (unvisited h0 memo) \<le> fuel \<Longrightarrow>
         deepcopy_st fuel v memo h = Some (v', memo', h') \<Longrightarrow>
           map_of memo \<subseteq>\<^sub>m map_of memo' \<and> length h \<le> length h' \<and>
           (\<forall>b<length h. h' ! b = h ! b) \<and> v' = ren memo' v \<and> cov memo' v \<and>
           copied h0 memo (length h) memo' h'"
    and "dc_inv h0 memo h \<Longrightarrow> \<forall>v \<in> set xs. valid_ref h0 v \<Longrightarrow> card (unvisited h0 memo) \<le> n \<Longrightarrow>
         length h0 \<le> y \<Longrightarrow> store_get h y = Some (OList dn) \<Longrightarrow>
         deepcopy_list_st n xs y memo h = Some (memo', h') \<Longrightarrow>
           map_of memo \<subseteq>\<^sub>m map_of memo' \<and> length h \<le> length h' \<and>
           (\<forall>b<length h. b \<noteq> y \<longrightarrow> h' ! b = h ! b) \<and>
           h' ! y = OList (dn @ map (ren memo') xs) \<and> (\<forall>u \<in> set xs. cov memo' u) \<and>
           copied h0 memo (length h) memo' h'"
    and "dc_inv h0 memo h \<Longrightarrow> \<forall>v \<in> snd ` set d. valid_ref h0 v \<Longrightarrow> card (unvisited h0 memo) \<le> n \<Longrightarrow>
         length h0 \<le> y \<Longrightarrow> store_get h y = Some (ODict dd) \<Longrightarrow> distinct (map fst d) \<Longrightarrow>
         fst ` set dd \<inter> fst ` set d = {} \<Longrightarrow>
         deepcopy_dict_st n d y memo h = Some (memo', h') \<Longrightarrow>
           map_of memo \<subseteq>\<^sub>m map_of memo' \<and> length h \<le> length h' \<and>
           (\<forall>b<length h. b \<noteq> y \<longrightarrow> h' ! b = h ! b) \<and>
           h' ! y = ODict (dd @ map (\<lambda>(k, v). (k, ren memo' v)) d) \<and>
           (\<forall>u \<in> snd ` set d. cov memo' u) \<and>
           copied h0 memo (length h) memo' h'"
proof (induction fuel v memo h and n xs y memo h and n d y memo h
       arbitrary: v' memo' h' and dn memo' h' and dd memo' h'
       rule: deepcopy_st_deepcopy_list_st_deepcopy_dict_st.induct)
  case (1 fuel v memo h)
  note res = "1.prems"(4)
  show ?case
  proof (cases v)
    case (HRef x)
    with "1.prems"(2) have x: "x < length h0" by (simp add: valid_ref_def)
    show ?thesis
    proof (cases "map_of memo x")
      case (Some y)
      with HRef res have "v' = HRef y" "memo' = memo" "h' = h"
        by (simp_all add: deepcopy_st.simps)
      with HRef Some show ?thesis by (simp add: cov_def copied_refl)
    next
      case None
      from unvisited_fuel [OF x None "1.prems"(3)] obtain n where n: "fuel = Suc n" ..
      from dc_inv_old [OF "1.prems"(1) x] have g: "store_get h x = Some (h0 ! x)" .
      from "1.prems"(3) n have c: "card (unvisited h0 ((x, length h) # memo)) \<le> n"
        by (intro card_unvisited_Cons [OF x None]) simp
      from "1.prems"(1) have l: "length h0 \<le> length h" by (simp add: dc_inv_def)
      have le0: "map_of memo \<subseteq>\<^sub>m map_of ((x, length h) # memo)"
        using None by (rule map_le_Cons)
      show ?thesis
      proof (cases "h0 ! x")
        case (OList xs)
        have i: "dc_inv h0 ((x, length h) # memo) (h @ [OList []])"
          using "1.prems"(1) x by (rule dc_inv_alloc) simp
        have vs: "\<forall>v \<in> set xs. valid_ref h0 v"
          using wf_store_refs [OF wf x] OList by simp
        have sg: "store_get (h @ [OList []]) (length h) = Some (OList [])"
          by (simp add: store_get_def)
        from res HRef None n g OList have
          r: "deepcopy_list_st n xs (length h) ((x, length h) # memo) (h @ [OList []]) = Some (memo', h')"
          and v': "v' = HRef (length h)"
          by (auto simp: deepcopy_st.simps Let_def split: option.splits)
        note post1 = "1.IH"(2) [OF HRef None n g OList refl i vs c l sg r]
        from post1 have le: "map_of ((x, length h) # memo) \<subseteq>\<^sub>m map_of memo'" by blast
        from post1 have len: "length (h @ [OList []]) \<le> length h'" by blast
        from post1 have fr: "\<forall>b<length (h @ [OList []]). b \<noteq> length h \<longrightarrow> h' ! b = (h @ [OList []]) ! b" by blast
        from post1 have cont: "h' ! length h = OList ([] @ map (ren memo') xs)" by blast
        from post1 have cv: "\<forall>u \<in> set xs. cov memo' u" by blast
        from post1 have cp: "copied h0 ((x, length h) # memo) (length (h @ [OList []])) memo' h'" by blast
        from le have mx: "map_of memo' x = Some (length h)" by (auto simp: map_le_def dom_def)
        have "copied h0 memo (length h) memo' h'"
          using cp le cont len cv OList by (intro copied_alloc [of h0 x]) simp_all
        moreover have "\<forall>b<length h. h' ! b = h ! b"
          using fr by (auto simp: nth_append)
        moreover have "map_of memo \<subseteq>\<^sub>m map_of memo'"
          using le0 le by (rule map_le_trans)
        ultimately show ?thesis using v' HRef mx len by (simp add: cov_def)
      next
        case (ODict d)
        have i: "dc_inv h0 ((x, length h) # memo) (h @ [ODict []])"
          using "1.prems"(1) x by (rule dc_inv_alloc) simp
        have vs: "\<forall>v \<in> snd ` set d. valid_ref h0 v"
          using wf_store_refs [OF wf x] ODict by simp
        have sg: "store_get (h @ [ODict []]) (length h) = Some (ODict [])"
          by (simp add: store_get_def)
        from dk x ODict have di: "distinct (map fst d)"
          by (auto simp: list_all_length dest!: spec [of _ x])
        have dj: "fst ` set [] \<inter> fst ` set d = {}" by simp
        from res HRef None n g ODict have
          r: "deepcopy_dict_st n d (length h) ((x, length h) # memo) (h @ [ODict []]) = Some (memo', h')"
          and v': "v' = HRef (length h)"
          by (auto simp: deepcopy_st.simps Let_def split: option.splits)
        note post2 = "1.IH"(1) [OF HRef None n g ODict refl i vs c l sg di dj r]
        from post2 have le: "map_of ((x, length h) # memo) \<subseteq>\<^sub>m map_of memo'" by blast
        from post2 have len: "length (h @ [ODict []]) \<le> length h'" by blast
        from post2 have fr: "\<forall>b<length (h @ [ODict []]). b \<noteq> length h \<longrightarrow> h' ! b = (h @ [ODict []]) ! b" by blast
        from post2 have cont: "h' ! length h = ODict ([] @ map (\<lambda>(k, v). (k, ren memo' v)) d)" by blast
        from post2 have cv: "\<forall>u \<in> snd ` set d. cov memo' u" by blast
        from post2 have cp: "copied h0 ((x, length h) # memo) (length (h @ [ODict []])) memo' h'" by blast
        from le have mx: "map_of memo' x = Some (length h)" by (auto simp: map_le_def dom_def)
        have "copied h0 memo (length h) memo' h'"
          using cp le cont len cv ODict by (intro copied_alloc [of h0 x]) simp_all
        moreover have "\<forall>b<length h. h' ! b = h ! b"
          using fr by (auto simp: nth_append)
        moreover have "map_of memo \<subseteq>\<^sub>m map_of memo'"
          using le0 le by (rule map_le_trans)
        ultimately show ?thesis using v' HRef mx len by (simp add: cov_def)
      qed
    qed
  qed (use res in \<open>auto simp: deepcopy_st.simps cov_def copied_refl\<close>)
next
  case (2 n y memo h)
  then show ?case by (auto simp: store_get_def copied_refl split: if_splits)
next
  case (3 n a xs y memo h)
  from "3.prems"(2) have va: "valid_ref h0 a" and vs: "\<forall>v \<in> set xs. valid_ref h0 v" by simp_all
  from "3.prems"(6) obtain a' memo1 h1 where
    r1: "deepcopy_st n a memo h = Some (a', memo1, h1)"
    and r2: "deepcopy_list_st n xs y memo1 (list_append h1 y a') = Some (memo', h')"
    by (auto split: option.splits)
  from deepcopy_st_total(1) [OF wf "3.prems"(1) va "3.prems"(3)] r1 have
    i1: "dc_inv h0 memo1 h1" and f1: "fresh (length h0) h1 a'" and s1: "set memo \<subseteq> set memo1"
    by auto
  from "3.IH"(1) [OF "3.prems"(1) va "3.prems"(3) r1] have
    le1: "map_of memo \<subseteq>\<^sub>m map_of memo1" and len1: "length h \<le> length h1"
    and fr1: "\<forall>b<length h. h1 ! b = h ! b" and a': "a' = ren memo1 a" and ca: "cov memo1 a"
    and cp1: "copied h0 memo (length h) memo1 h1"
    by simp_all
  from "3.prems"(5) have y: "y < length h" "h ! y = OList dn"
    by (auto simp: store_get_def split: if_splits)
  with fr1 len1 have g1: "store_get h1 y = Some (OList dn)"
    by (simp add: store_get_def)
  then have g1': "store_get (list_append h1 y a') y = Some (OList (dn @ [a']))"
    by (auto simp: store_get_def list_append_nth split: if_splits)
  have i1': "dc_inv h0 memo1 (list_append h1 y a')"
    using i1 "3.prems"(4) f1 by (rule dc_inv_list_append)
  have c1: "card (unvisited h0 memo1) \<le> n"
    using card_unvisited_mono [OF image_mono [OF s1], of h0] "3.prems"(3) by simp
  from "3.IH"(2) [OF r1 refl refl i1' vs c1 "3.prems"(4) g1' r2] have
    le2: "map_of memo1 \<subseteq>\<^sub>m map_of memo'" and len2: "length h1 \<le> length h'"
    and fr2: "\<forall>b<length h1. b \<noteq> y \<longrightarrow> h' ! b = list_append h1 y a' ! b"
    and cont: "h' ! y = OList ((dn @ [a']) @ map (ren memo') xs)"
    and cv: "\<forall>u \<in> set xs. cov memo' u"
    and cp2: "copied h0 memo1 (length h1) memo' h'"
    by simp_all
  have "ren memo' a = a'" using ren_stable [OF ca le2] a' by simp
  with cont have "h' ! y = OList (dn @ map (ren memo') (a # xs))" by simp
  moreover have "\<forall>b<length h. b \<noteq> y \<longrightarrow> h' ! b = h ! b"
    using fr2 fr1 len1 by (auto simp: list_append_nth)
  moreover have "copied h0 memo (length h) memo' h'"
    using cp1 cp2 le2 len1
  proof (rule copied_trans)
    show "\<forall>b. length h \<le> b \<longrightarrow> b < length h1 \<longrightarrow> h' ! b = h1 ! b"
      using fr2 y(1) by (auto simp: list_append_nth)
    show "length h1 \<le> length h'" by (rule len2)
  qed
  moreover have "map_of memo \<subseteq>\<^sub>m map_of memo'" using le1 le2 by (rule map_le_trans)
  moreover have "cov memo' a" using ca le2 by (rule cov_mono)
  ultimately show ?case using cv len1 len2 by simp
next
  case (4 n y memo h)
  then show ?case by (auto simp: store_get_def copied_refl split: if_splits)
next
  case (5 n key v d y memo h)
  from "5.prems"(2) have va: "valid_ref h0 v" and vs: "\<forall>v \<in> snd ` set d. valid_ref h0 v"
    by simp_all
  from "5.prems"(8) obtain a' memo1 h1 where
    r1: "deepcopy_st n v memo h = Some (a', memo1, h1)"
    and r2: "deepcopy_dict_st n d y memo1 (dict_setitem h1 y key a') = Some (memo', h')"
    by (auto split: option.splits)
  from deepcopy_st_total(1) [OF wf "5.prems"(1) va "5.prems"(3)] r1 have
    i1: "dc_inv h0 memo1 h1" and f1: "fresh (length h0) h1 a'" and s1: "set memo \<subseteq> set memo1"
    by auto
  from "5.IH"(1) [OF "5.prems"(1) va "5.prems"(3) r1] have
    le1: "map_of memo \<subseteq>\<^sub>m map_of memo1" and len1: "length h \<le> length h1"
    and fr1: "\<forall>b<length h. h1 ! b = h ! b" and a': "a' = ren memo1 v" and ca: "cov memo1 v"
    and cp1: "copied h0 memo (length h) memo1 h1"
    by simp_all
  from "5.prems"(5) have y: "y < length h" "h ! y = ODict dd"
    by (auto simp: store_get_def split: if_splits)
  with fr1 len1 have g1: "store_get h1 y = Some (ODict dd)"
    by (simp add: store_get_def)
  from "5.prems"(7) have "key \<notin> fst ` set dd" by auto
  then have ds: "dict_set key a' dd = dd @ [(key, a')]" by (rule dict_set_new)
  from g1 have g1': "store_get (dict_setitem h1 y key a') y = Some (ODict (dd @ [(key, a')]))"
    by (auto simp: store_get_def dict_setitem_nth ds split: if_splits)
  have i1': "dc_inv h0 memo1 (dict_setitem h1 y key a')"
    using i1 "5.prems"(4) f1 by (rule dc_inv_dict_setitem)
  have c1: "card (unvisited h0 memo1) \<le> n"
    using card_unvisited_mono [OF image_mono [OF s1], of h0] "5.prems"(3) by simp
  from "5.prems"(6) have di: "distinct (map fst d)" and kd: "key \<notin> fst ` set d" by auto
  from "5.prems"(7) kd have dj: "fst ` set (dd @ [(key, a')]) \<inter> fst ` set d = {}" by auto
  from "5.IH"(2) [OF r1 refl refl i1' vs c1 "5.prems"(4) g1' di dj r2] have
    le2: "map_of memo1 \<subseteq>\<^sub>m map_of memo'" and len2: "length h1 \<le> length h'"
    and fr2: "\<forall>b<length h1. b \<noteq> y \<longrightarrow> h' ! b = dict_setitem h1 y key a' ! b"
    and cont: "h' ! y = ODict ((dd @ [(key, a')]) @ map (\<lambda>(k, v). (k, ren memo' v)) d)"
    and cv: "\<forall>u \<in> snd ` set d. cov memo' u"
    and cp2: "copied h0 memo1 (length h1) memo' h'"
    by simp_all
  have "ren memo' v = a'" using ren_stable [OF ca le2] a' by simp
  with cont have "h' ! y = ODict (dd @ map (\<lambda>(k, v). (k, ren memo' v)) ((key, v) # d))" by simp
  moreover have "\<forall>b<length h. b \<noteq> y \<longrightarrow> h' ! b = h ! b"
    using fr2 fr1 len1 by (auto simp: dict_setitem_nth)
  moreover have "copied h0 memo (length h) memo' h'"
    using cp1 cp2 le2 len1
  proof (rule copied_trans)
    show "\<forall>b. length h \<le> b \<longrightarrow> b < length h1 \<longrightarrow> h' ! b = h1 ! b"
      using fr2 y(1) by (auto simp: dict_setitem_nth)
    show "length h1 \<le> length h'" by (rule len2)
  qed
  moreover have "map_of memo \<subseteq>\<^sub>m map_of memo'" using le1 le2 by (rule map_le_trans)
  moreover have "cov memo' v" using ca le2 by (rule cov_mono)
  ultimately show ?case using cv len1 len2 by simp
qed

lemma reach_wf:
  assumes "wf_store h" and "valid_ref h v" and "a \<in> reach h v"
  shows "a < length h"
  using assms(3)
proof (induction rule: reach.induct)
  case (root a)
  with assms(2) show ?case by (simp add: valid_ref_def)
next
  case (step b obj c)
  from step.hyps(2) have "obj = h ! b" by (auto simp: store_get_def split: if_splits)
  with wf_store_refs [OF assms(1) step.IH, of "HRef c"] step.hyps(3)
  show ?case by (simp add: valid_ref_def)
qed

lemma take_take_le: "n0 \<le> length h \<Longrightarrow> take (length h) h1 = h \<Longrightarrow> take n0 h1 = take n0 h"
proof -
  assume n: "n0 \<le> length h" and t: "take (length h) h1 = h"
  have "take n0 (take (length h) h1) = take n0 h1"
    using n by (simp add: min_def)
  with t show ?thesis by simp
qed

lemma dc_inv_init: "dc_inv h [] h"
  by (simp add: dc_inv_def closed_from_def memo_ok_def)

lemma card_unvisited_init: "card (unvisited h []) = length h"
proof -
  have "unvisited h [] = {..<length h}" by (auto simp: unvisited_def)
  then show ?thesis by simp
qed

section \<open>Conditions on the store\<close>

lemma evaluator_allocates_cache [simp]:
  "evaluator_allocates (self\<lparr>priv_conditions := c\<rparr>) = evaluator_allocates self"
  by (simp add: evaluator_allocates_def)

lemma shallow_cache [simp]: "shallow (self\<lparr>priv_conditions := c\<rparr>) = shallow self"
  by (simp add: shallow_def)

lemma take_length_le: "take n h' = h \<Longrightarrow> n = length h \<Longrightarrow> length h \<le> length h'"
  by (metis length_take min.cobounded1 min.commute)

lemma evaluator_allocates_parse:
  "evaluator_allocates self \<Longrightarrow> parse_condition self stack v (h, w) = (r, h', w') \<Longrightarrow>
     take (length h) h' = h"
  unfolding evaluator_allocates_def by blast

lemma evaluator_allocates_resolve:
  "evaluator_allocates self \<Longrightarrow> function_resolve self f (h, w) = (r, h', w') \<Longrightarrow>
     take (length h) h' = h"
  unfolding evaluator_allocates_def by blast

lemma resolve_loop_st_frame:
  assumes ev: "evaluator_allocates self"
  shows "resolve_loop_st self stack cds acc (h, w) = (r, h', w') \<Longrightarrow> take (length h) h' = h"
proof (induction cds arbitrary: acc h w)
  case Nil
  then show ?case by simp
next
  case (Cons c cds)
  obtain cd_key cd_value where c: "c = (cd_key, cd_value)" by (cases c)
  show ?case
  proof (cases "is_bool_st cd_value")
    case True
    with Cons.prems c have "resolve_loop_st self stack cds (dict_set cd_key cd_value acc) (h, w) = (r, h', w')"
      by simp
    then show ?thesis by (rule Cons.IH)
  next
    case False
    obtain r1 h1 w1 where p: "parse_condition self stack cd_value (h, w) = (r1, h1, w1)"
      by (cases "parse_condition self stack cd_value (h, w)")
    with ev have t1: "take (length h) h1 = h" by (rule evaluator_allocates_parse)
    show ?thesis
    proof (cases r1)
      case (Inl e)
      with Cons.prems c False p have "h' = h1" by simp
      with t1 show ?thesis by simp
    next
      case (Inr f)
      obtain r2 h2 w2 where q: "function_resolve self f (h1, w1) = (r2, h2, w2)"
        by (cases "function_resolve self f (h1, w1)")
      with ev have t2: "take (length h1) h2 = h1" by (rule evaluator_allocates_resolve)
      from t1 have l1: "length h \<le> length h1" by (rule take_length_le) simp
      from t2 have l2: "length h1 \<le> length h2" by (rule take_length_le) simp
      from take_take_le [OF l1 t2] t1 have t12: "take (length h) h2 = h" by simp
      show ?thesis
      proof (cases r2)
        case (Inl e)
        with Cons.prems c False p Inr q have "h' = h2" by simp
        with t12 show ?thesis by simp
      next
        case (Inr v)
        with Cons.prems c False p \<open>r1 = Inr f\<close> q
        have "resolve_loop_st self stack cds (dict_set cd_key v acc) (h2, w2) = (r, h', w')"
          by simp
        from Cons.IH [OF this] have t3: "take (length h2) h' = h2" .
        from t12 have "length h \<le> length h2" by (rule take_length_le) simp
        from take_take_le [OF this t3] t12 show ?thesis by simp
      qed
    qed
  qed
qed

lemma conditions_st_cached:
  "priv_conditions self = Some cds \<Longrightarrow> conditions_st self stack w = (Inr cds, self, w)"
  by (simp add: conditions_st_def)

lemma conditions_st_facts:
  assumes ev: "evaluator_allocates self"
    and c: "conditions_st self stack (h, w) = (r, self1, h1, w1)"
  shows "take (length h) h1 = h" and "length h \<le> length h1"
    and "self1 = self\<lparr>priv_conditions := priv_conditions self1\<rparr>"
    and "cache_vals self \<subseteq> cache_vals self1"
    and "priv_conditions self \<noteq> None \<Longrightarrow> self1 = self \<and> h1 = h \<and> w1 = w"
    and "r = Inr cds \<Longrightarrow> priv_conditions self1 = Some cds"
proof -
  have all: "take (length h) h1 = h \<and> self1 = self\<lparr>priv_conditions := priv_conditions self1\<rparr> \<and>
    cache_vals self \<subseteq> cache_vals self1 \<and>
    (priv_conditions self \<noteq> None \<longrightarrow> self1 = self \<and> h1 = h \<and> w1 = w) \<and>
    (r = Inr cds \<longrightarrow> priv_conditions self1 = Some cds)"
  proof (cases "priv_conditions self")
    case None
    obtain r0 h0 w0 where rc: "resolve_loop_st self stack (get_condition_definitions self) [] (h, w) = (r0, h0, w0)"
      by (cases "resolve_loop_st self stack (get_condition_definitions self) [] (h, w)")
    from resolve_loop_st_frame [OF ev rc] have t: "take (length h) h0 = h" .
    have cv: "cache_vals self = {}" using None by (simp add: cache_vals_def)
    show ?thesis
    proof (cases r0)
      case (Inl e)
      with c None rc have "self1 = self" "h1 = h0" "r = Inl e"
        by (simp_all add: conditions_st_def resolve_conditions_st_def)
      with t None show ?thesis by simp
    next
      case (Inr res)
      with c None rc have "self1 = self\<lparr>priv_conditions := Some res\<rparr>" "h1 = h0" "r = Inr res"
        by (simp_all add: conditions_st_def resolve_conditions_st_def)
      with t None cv show ?thesis by simp
    qed
  next
    case (Some a)
    from c conditions_st_cached [OF Some, of stack "(h, w)"]
    have "r = Inr a" "self1 = self" "h1 = h" "w1 = w" by simp_all
    with Some show ?thesis by simp
  qed
  from all show t: "take (length h) h1 = h" by blast
  then show "length h \<le> length h1" by (rule take_length_le) simp
  from all show "self1 = self\<lparr>priv_conditions := priv_conditions self1\<rparr>" by blast
  from all show "cache_vals self \<subseteq> cache_vals self1" by blast
  from all show "priv_conditions self \<noteq> None \<Longrightarrow> self1 = self \<and> h1 = h \<and> w1 = w" by blast
  from all show "r = Inr cds \<Longrightarrow> priv_conditions self1 = Some cds" by blast
qed

lemma cds_lookup_st_Inr:
  "cds_lookup_st cds cd_key path = Inr cd \<Longrightarrow> \<exists>name. cd_key = HStr name \<and> map_of cds name = Some cd"
  by (cases cd_key) (auto split: option.splits)

lemma st_getitem_Inr:
  "st_getitem h snippet key = Inr v \<Longrightarrow>
     \<exists>s d. snippet = HRef s \<and> s < length h \<and> h ! s = ODict d \<and> map_of d key = Some v"
  by (cases snippet) (auto simp: store_get_def split: option.splits hobj.splits if_splits)

lemma get_output_condition_st_none:
  "\<not> has_condition_section self (h, snippet) \<Longrightarrow>
     get_output_condition_st self stack snippet key h w = (Inr (HBool True), self, h, w)"
  by (simp add: get_output_condition_st_def get_condition_st_def)

lemma get_output_condition_st_getitem:
  "has_condition_section self (h, snippet) \<Longrightarrow> st_getitem h snippet (CONDITION self) = Inl e \<Longrightarrow>
     get_output_condition_st self stack snippet key h w = (Inl e, self, h, w)"
  by (simp add: get_output_condition_st_def get_condition_st_def)

lemma get_output_condition_st_Inl:
  "has_condition_section self (h, snippet) \<Longrightarrow> st_getitem h snippet (CONDITION self) = Inr cd_key \<Longrightarrow>
   conditions_st self stack (h, w) = (Inl e, self0, h0, w0) \<Longrightarrow>
     get_output_condition_st self stack snippet key h w = (Inl e, self0, h0, w0)"
  by (simp add: get_output_condition_st_def get_condition_st_def)

lemma get_output_condition_st_lookup:
  "has_condition_section self (h, snippet) \<Longrightarrow> st_getitem h snippet (CONDITION self) = Inr cd_key \<Longrightarrow>
   conditions_st self stack (h, w) = (Inr cds, self0, h0, w0) \<Longrightarrow>
     get_output_condition_st self stack snippet key h w =
       (cds_lookup_st cds cd_key (join ''.'' [OUTPUTS self, key, OUTPUT_CONDITION self]), self0, h0, w0)"
  by (simp add: get_output_condition_st_def get_condition_st_def)

lemma get_output_condition_st_Inr:
  assumes ev: "evaluator_allocates self"
    and g: "get_output_condition_st self stack snippet key h w = (Inr cd, self1, h1, w1)"
    and hc: "has_condition_section self (h, snippet)"
  shows "\<exists>s d name cds. snippet = HRef s \<and> s < length h \<and> h ! s = ODict d \<and>
           map_of d (CONDITION self) = Some (HStr name) \<and>
           priv_conditions self1 = Some cds \<and> map_of cds name = Some cd \<and>
           take (length h) h1 = h \<and> length h \<le> length h1 \<and>
           self1 = self\<lparr>priv_conditions := Some cds\<rparr> \<and>
           (priv_conditions self \<noteq> None \<longrightarrow> self1 = self \<and> h1 = h \<and> w1 = w)"
proof -
  let ?path = "join ''.'' [OUTPUTS self, key, OUTPUT_CONDITION self]"
  from g get_output_condition_st_getitem [OF hc, of _ stack key w]
  obtain cd_key where gi: "st_getitem h snippet (CONDITION self) = Inr cd_key"
    by (cases "st_getitem h snippet (CONDITION self)") simp_all
  obtain r0 self0 h0 w0 where c: "conditions_st self stack (h, w) = (r0, self0, h0, w0)"
    by (cases "conditions_st self stack (h, w)")
  from g get_output_condition_st_Inl [OF hc gi, of stack w _ self0 h0 w0 key] c
  obtain cds where r0: "r0 = Inr cds"
    by (cases r0) simp_all
  from g get_output_condition_st_lookup [OF hc gi, of stack w cds self0 h0 w0 key] c r0
  have e: "self1 = self0" "h1 = h0" "w1 = w0"
    and lk: "cds_lookup_st cds cd_key ?path = Inr cd"
    by simp_all
  from cds_lookup_st_Inr [OF lk] obtain name where n: "cd_key = HStr name" "map_of cds name = Some cd"
    by blast
  from st_getitem_Inr [OF gi] obtain s d where s: "snippet = HRef s" "s < length h" "h ! s = ODict d"
    "map_of d (CONDITION self) = Some cd_key" by blast
  note f = conditions_st_facts [OF ev c]
  from f(6) [OF r0] have pc: "priv_conditions self0 = Some cds" .
  with f(3) have s0: "self0 = self\<lparr>priv_conditions := Some cds\<rparr>" by simp
  from f(5) e have keep: "priv_conditions self \<noteq> None \<longrightarrow> self1 = self \<and> h1 = h \<and> w1 = w"
    by simp
  from f(1) e have t: "take (length h) h1 = h" by simp
  from f(2) e have l: "length h \<le> length h1" by simp
  from pc e have pc1: "priv_conditions self1 = Some cds" by simp
  from s0 e have s1: "self1 = self\<lparr>priv_conditions := Some cds\<rparr>" by simp
  from n(1) s(4) have m: "map_of d (CONDITION self) = Some (HStr name)" by simp
  from s(1-3) m pc1 n(2) t l s1 keep show ?thesis by blast
qed

lemma get_output_condition_st_frame:
  assumes ev: "evaluator_allocates self"
    and g: "get_output_condition_st self stack snippet key h w = (r, self1, h1, w1)"
  shows "take (length h) h1 = h" and "length h \<le> length h1"
    and "self1 = self\<lparr>priv_conditions := priv_conditions self1\<rparr>"
    and "cache_vals self \<subseteq> cache_vals self1"
    and "r = Inr cd \<Longrightarrow> cd = HBool True \<and> self1 = self \<or> cd \<in> cache_vals self1"
proof -
  have "take (length h) h1 = h \<and> length h \<le> length h1 \<and>
        self1 = self\<lparr>priv_conditions := priv_conditions self1\<rparr> \<and>
        cache_vals self \<subseteq> cache_vals self1 \<and>
        (r = Inr cd \<longrightarrow> cd = HBool True \<and> self1 = self \<or> cd \<in> cache_vals self1)"
  proof (cases "has_condition_section self (h, snippet)")
    case False
    from g get_output_condition_st_none [OF False, of stack key w]
    have "r = Inr (HBool True)" "self1 = self" "h1 = h" by simp_all
    then show ?thesis by simp
  next
    case True
    show ?thesis
    proof (cases "st_getitem h snippet (CONDITION self)")
      case (Inl e)
      from g get_output_condition_st_getitem [OF True Inl, of stack key w]
      have "r = Inl e" "self1 = self" "h1 = h" by simp_all
      then show ?thesis by simp
    next
      case (Inr cd_key)
      obtain r0 self0 h0 w0 where c: "conditions_st self stack (h, w) = (r0, self0, h0, w0)"
        by (cases "conditions_st self stack (h, w)")
      note f = conditions_st_facts [OF ev c]
      show ?thesis
      proof (cases r0)
        case (Inl e)
        with g get_output_condition_st_Inl [OF True Inr, of stack w e self0 h0 w0 key] c
        have "self1 = self0" "h1 = h0" "r = Inl e"
          by simp_all
        with f(1-4) show ?thesis by simp
      next
        case (Inr cds)
        with g get_output_condition_st_lookup [OF True \<open>st_getitem h snippet (CONDITION self) = Inr cd_key\<close>,
            of stack w cds self0 h0 w0 key] c
        have e: "self1 = self0" "h1 = h0"
          and lk: "r = cds_lookup_st cds cd_key (join ''.'' [OUTPUTS self, key, OUTPUT_CONDITION self])"
          by simp_all
        have "r = Inr cd \<longrightarrow> cd \<in> cache_vals self1"
        proof
          assume "r = Inr cd"
          with lk have "cds_lookup_st cds cd_key (join ''.'' [OUTPUTS self, key, OUTPUT_CONDITION self]) = Inr cd"
            by simp
          from cds_lookup_st_Inr [OF this] obtain name where "map_of cds name = Some cd"
            by blast
          then have "(name, cd) \<in> set cds" by (rule map_of_SomeD)
          with f(6) [OF Inr] e show "cd \<in> cache_vals self1" by (force simp: cache_vals_def)
        qed
        with f(1-4) e show ?thesis by simp
      qed
    qed
  qed
  then show "take (length h) h1 = h" and "length h \<le> length h1"
    and "self1 = self\<lparr>priv_conditions := priv_conditions self1\<rparr>"
    and "cache_vals self \<subseteq> cache_vals self1"
    and "r = Inr cd \<Longrightarrow> cd = HBool True \<and> self1 = self \<or> cd \<in> cache_vals self1"
    by blast+
qed

section \<open>The loop over the entries of the copy\<close>

lemma st_setitem_Inr:
  "st_setitem h snippet k v = Inr h2 \<Longrightarrow>
     \<exists>s d. snippet = HRef s \<and> s < length h \<and> h ! s = ODict d \<and> h2 = h[s := ODict (dict_set k v d)]"
  by (cases snippet) (auto simp: store_get_def split: option.splits hobj.splits if_splits)

lemma store_get_dict:
  "store_get h a = Some (ODict items) \<Longrightarrow> a < length h \<and> h ! a = ODict items"
  by (auto simp: store_get_def split: if_splits)

lemma outputs_loop_st_skip:
  "store_get h a = Some (ODict items) \<Longrightarrow> length items = n \<Longrightarrow> items ! i = (key, snippet) \<Longrightarrow>
   \<not> has_condition_section self (h, snippet) \<Longrightarrow>
     outputs_loop_st self stack a n (i # rest) h w = outputs_loop_st self stack a n rest h w"
  by simp

lemma outputs_loop_st_cond_err:
  "store_get h a = Some (ODict items) \<Longrightarrow> length items = n \<Longrightarrow> items ! i = (key, snippet) \<Longrightarrow>
   has_condition_section self (h, snippet) \<Longrightarrow>
   get_output_condition_st self stack snippet key h w = (Inl e, self1, h1, w1) \<Longrightarrow>
     outputs_loop_st self stack a n (i # rest) h w = (Inl e, self1, h1, w1)"
  by simp

lemma outputs_loop_st_set_err:
  "store_get h a = Some (ODict items) \<Longrightarrow> length items = n \<Longrightarrow> items ! i = (key, snippet) \<Longrightarrow>
   has_condition_section self (h, snippet) \<Longrightarrow>
   get_output_condition_st self stack snippet key h w = (Inr cd, self1, h1, w1) \<Longrightarrow>
   st_setitem h1 snippet (OUTPUT_CONDITION self1) cd = Inl e \<Longrightarrow>
     outputs_loop_st self stack a n (i # rest) h w = (Inl e, self1, h1, w1)"
  by simp

lemma outputs_loop_st_truthy:
  "store_get h a = Some (ODict items) \<Longrightarrow> length items = n \<Longrightarrow> items ! i = (key, snippet) \<Longrightarrow>
   has_condition_section self (h, snippet) \<Longrightarrow>
   get_output_condition_st self stack snippet key h w = (Inr cd, self1, h1, w1) \<Longrightarrow>
   st_setitem h1 snippet (OUTPUT_CONDITION self1) cd = Inr h2 \<Longrightarrow> truthy_st h2 cd \<Longrightarrow>
     outputs_loop_st self stack a n (i # rest) h w = outputs_loop_st self1 stack a n rest h2 w1"
  by simp

lemma outputs_loop_st_value_err:
  "store_get h a = Some (ODict items) \<Longrightarrow> length items = n \<Longrightarrow> items ! i = (key, snippet) \<Longrightarrow>
   has_condition_section self (h, snippet) \<Longrightarrow>
   get_output_condition_st self stack snippet key h w = (Inr cd, self1, h1, w1) \<Longrightarrow>
   st_setitem h1 snippet (OUTPUT_CONDITION self1) cd = Inr h2 \<Longrightarrow> \<not> truthy_st h2 cd \<Longrightarrow>
   st_setitem h2 snippet (OUTPUT_VALUE self1) HNone = Inl e \<Longrightarrow>
     outputs_loop_st self stack a n (i # rest) h w = (Inl e, self1, h2, w1)"
  by simp

lemma outputs_loop_st_falsy:
  "store_get h a = Some (ODict items) \<Longrightarrow> length items = n \<Longrightarrow> items ! i = (key, snippet) \<Longrightarrow>
   has_condition_section self (h, snippet) \<Longrightarrow>
   get_output_condition_st self stack snippet key h w = (Inr cd, self1, h1, w1) \<Longrightarrow>
   st_setitem h1 snippet (OUTPUT_CONDITION self1) cd = Inr h2 \<Longrightarrow> \<not> truthy_st h2 cd \<Longrightarrow>
   st_setitem h2 snippet (OUTPUT_VALUE self1) HNone = Inr h3 \<Longrightarrow>
     outputs_loop_st self stack a n (i # rest) h w = outputs_loop_st self1 stack a n rest h3 w1"
  by simp

declare outputs_loop_st.simps [simp del]

lemma copy_region_mono:
  "copy_region n0 n1 C h \<Longrightarrow> C \<subseteq> C' \<Longrightarrow> take (length h) h' = h \<Longrightarrow> copy_region n0 n1 C' h'"
proof -
  assume c: "copy_region n0 n1 C h" and s: "C \<subseteq> C'" and t: "take (length h) h' = h"
  from t have l: "length h \<le> length h'" by (rule take_length_le) simp
  have "\<And>b. b < length h \<Longrightarrow> h' ! b = h ! b"
  proof -
    fix b assume "b < length h"
    then have "take (length h) h' ! b = h' ! b" by (rule nth_take)
    with t show "h' ! b = h ! b" by simp
  qed
  with c s l show ?thesis by (fastforce simp: copy_region_def)
qed

lemma copy_region_write:
  assumes c: "copy_region n0 n1 C h" and v: "inreg n0 n1 v \<or> v \<in> C"
    and s: "s < length h" "h ! s = ODict d"
  shows "copy_region n0 n1 C (h[s := ODict (dict_set k v d)])"
  unfolding copy_region_def
proof (intro conjI allI impI ballI)
  from c show "n1 \<le> length (h[s := ODict (dict_set k v d)])" by (simp add: copy_region_def)
next
  fix b u assume b: "n0 \<le> b" "b < n1" and u: "u \<in> refs (h[s := ODict (dict_set k v d)] ! b)"
  show "inreg n0 n1 u \<or> u \<in> C"
  proof (cases "b = s")
    case True
    with u s have "u \<in> refs (ODict (dict_set k v d))" by simp
    from refs_dict_set [OF this] have "u = v \<or> u \<in> refs (h ! s)" using s by simp
    with v c b True show ?thesis by (auto simp: copy_region_def)
  next
    case False
    with u have "u \<in> refs (h ! b)" by simp
    with c b show ?thesis by (auto simp: copy_region_def)
  qed
qed

lemma outputs_loop_st_region:
  "outputs_loop_st self stack a n is h w = (r, self', h', w') \<Longrightarrow>
     evaluator_allocates self \<Longrightarrow> n0 \<le> a \<Longrightarrow> a < n1 \<Longrightarrow> \<forall>i \<in> set is. i < n \<Longrightarrow>
     copy_region n0 n1 (cache_vals self) h \<Longrightarrow>
       length h \<le> length h' \<and>
       (\<forall>b<length h. n0 \<le> b \<and> b < n1 \<or> h' ! b = h ! b \<or> HRef b \<in> cache_vals self') \<and>
       copy_region n0 n1 (cache_vals self') h' \<and> cache_vals self \<subseteq> cache_vals self'"
proof (induction "is" arbitrary: self h w)
  case Nil
  have "self' = self \<and> h' = h"
  proof (cases "\<exists>items. store_get h a = Some (ODict items) \<and> length items = n")
    case True
    then obtain items where "store_get h a = Some (ODict items)" "length items = n" by blast
    with Nil.prems(1) show ?thesis by (simp add: outputs_loop_st.simps)
  next
    case False
    then have "\<exists>e. outputs_loop_st self stack a n [] h w = (Inl e, self, h, w)"
      by (auto simp: outputs_loop_st.simps split: option.splits hobj.splits)
    with Nil.prems(1) show ?thesis by auto
  qed
  with Nil.prems show ?case by simp
next
  case (Cons i rest)
  note loop = Cons.prems(1) and ev' = Cons.prems(2) and a0 = Cons.prems(3) and a1 = Cons.prems(4)
    and cr = Cons.prems(6)
  from Cons.prems(5) have i: "i < n" and rest: "\<forall>i \<in> set rest. i < n" by simp_all
  show ?case
  proof (cases "\<exists>items. store_get h a = Some (ODict items) \<and> length items = n")
    case False
    then have "\<exists>e. outputs_loop_st self stack a n (i # rest) h w = (Inl e, self, h, w)"
      by (auto simp: outputs_loop_st.simps split: option.splits hobj.splits)
    with loop have "self' = self \<and> h' = h" by auto
    with cr show ?thesis by simp
  next
    case True
    then obtain items where g: "store_get h a = Some (ODict items)" and n: "length items = n"
      by blast
    from store_get_dict [OF g] have ah: "a < length h" "h ! a = ODict items" by simp_all
    obtain key snippet where ks: "items ! i = (key, snippet)" by (cases "items ! i")
    from i n have "items ! i \<in> set items" by simp
    with ks have "snippet \<in> snd ` set items" by force
    with ah have sr: "snippet \<in> refs (h ! a)" by simp
    with cr a0 a1 have sn: "inreg n0 n1 snippet \<or> snippet \<in> cache_vals self"
      by (simp add: copy_region_def)
    show ?thesis
    proof (cases "has_condition_section self (h, snippet)")
      case False
      from loop outputs_loop_st_skip [OF g n ks False, of stack rest w]
      have "outputs_loop_st self stack a n rest h w = (r, self', h', w')" by simp
      from Cons.IH [OF this ev' a0 a1 rest cr] show ?thesis .
    next
      case True
      obtain gr self1 h1 w1 where
        go: "get_output_condition_st self stack snippet key h w = (gr, self1, h1, w1)"
        by (cases "get_output_condition_st self stack snippet key h w")
      note f = get_output_condition_st_frame [OF ev' go]
      from f(3) ev' have ev1: "evaluator_allocates self1"
        by (metis evaluator_allocates_cache)
      from copy_region_mono [OF cr f(4) f(1)] have cr1: "copy_region n0 n1 (cache_vals self1) h1" .
      have old1: "\<And>b. b < length h \<Longrightarrow> h1 ! b = h ! b"
      proof -
        fix b assume "b < length h"
        then have "take (length h) h1 ! b = h1 ! b" by (rule nth_take)
        with f(1) show "h1 ! b = h ! b" by simp
      qed
      show ?thesis
      proof (cases gr)
        case (Inl e)
        from loop outputs_loop_st_cond_err [OF g n ks True, of stack w e self1 h1 w1 rest] go Inl
        have "self' = self1" "h' = h1" by simp_all
        with f cr1 old1 show ?thesis by simp
      next
        case (Inr cd)
        note go' = go [unfolded Inr]
        from f(5) [OF Inr] have cdr: "inreg n0 n1 cd \<or> cd \<in> cache_vals self1"
          by (auto simp: inreg_def)
        show ?thesis
        proof (cases "st_setitem h1 snippet (OUTPUT_CONDITION self1) cd")
          case (Inl e)
          from loop outputs_loop_st_set_err [OF g n ks True go' Inl, of rest]
          have "self' = self1" "h' = h1" by simp_all
          with f cr1 old1 show ?thesis by simp
        next
          case (Inr h2)
          note s2 = this
          from st_setitem_Inr [OF s2] obtain s d where s: "snippet = HRef s" "s < length h1"
            "h1 ! s = ODict d" "h2 = h1[s := ODict (dict_set (OUTPUT_CONDITION self1) cd d)]"
            by blast
          from copy_region_write [OF cr1 cdr s(2,3)] s(4)
          have cr2: "copy_region n0 n1 (cache_vals self1) h2" by simp
          from s(4) have l2: "length h2 = length h1" by simp
          from sn s(1) f(4) have sb: "n0 \<le> s \<and> s < n1 \<or> HRef s \<in> cache_vals self1"
            by (auto simp: inreg_def)
          have old2: "\<And>b. b < length h \<Longrightarrow> b \<noteq> s \<Longrightarrow> h2 ! b = h ! b"
            using old1 s(4) by simp
          let ?G = ?thesis
          have fin: "\<And>h3. outputs_loop_st self1 stack a n rest h3 w1 = (r, self', h', w') \<Longrightarrow>
              copy_region n0 n1 (cache_vals self1) h3 \<Longrightarrow> length h3 = length h1 \<Longrightarrow>
              (\<And>b. b < length h \<Longrightarrow> b \<noteq> s \<Longrightarrow> h3 ! b = h ! b) \<Longrightarrow> ?G"
          proof -
            fix h3
            assume l3: "outputs_loop_st self1 stack a n rest h3 w1 = (r, self', h', w')"
              and cr3: "copy_region n0 n1 (cache_vals self1) h3" and len: "length h3 = length h1"
              and old3: "\<And>b. b < length h \<Longrightarrow> b \<noteq> s \<Longrightarrow> h3 ! b = h ! b"
            from Cons.IH [OF l3 ev1 a0 a1 rest cr3]
            have p1: "length h3 \<le> length h'"
              and p2: "\<forall>b<length h3. n0 \<le> b \<and> b < n1 \<or> h' ! b = h3 ! b \<or> HRef b \<in> cache_vals self'"
              and p3: "copy_region n0 n1 (cache_vals self') h'"
              and p4: "cache_vals self1 \<subseteq> cache_vals self'"
              by blast+
            have "\<forall>b<length h. n0 \<le> b \<and> b < n1 \<or> h' ! b = h ! b \<or> HRef b \<in> cache_vals self'"
            proof (intro allI impI)
              fix b assume b: "b < length h"
              with f(2) len have "b < length h3" by simp
              with p2 have d: "n0 \<le> b \<and> b < n1 \<or> h' ! b = h3 ! b \<or> HRef b \<in> cache_vals self'"
                by blast
              show "n0 \<le> b \<and> b < n1 \<or> h' ! b = h ! b \<or> HRef b \<in> cache_vals self'"
              proof (cases "b = s")
                case True
                with sb p4 show ?thesis by auto
              next
                case False
                with old3 [OF b] d show ?thesis by auto
              qed
            qed
            with p1 p3 p4 f(2) f(4) len show ?G by auto
          qed
          show ?thesis
          proof (cases "truthy_st h2 cd")
            case True
            from loop outputs_loop_st_truthy [OF g n ks \<open>has_condition_section self (h, snippet)\<close> go' s2 True, of rest]
            have "outputs_loop_st self1 stack a n rest h2 w1 = (r, self', h', w')" by simp
            from fin [OF this cr2 l2 old2] show ?thesis .
          next
            case False
            show ?thesis
            proof (cases "st_setitem h2 snippet (OUTPUT_VALUE self1) HNone")
              case (Inl e)
              from loop outputs_loop_st_value_err [OF g n ks \<open>has_condition_section self (h, snippet)\<close> go' s2 False Inl, of rest]
              have e: "self' = self1" "h' = h2" by simp_all
              have "\<forall>b<length h. n0 \<le> b \<and> b < n1 \<or> h2 ! b = h ! b \<or> HRef b \<in> cache_vals self1"
                using old2 sb by blast
              with e f(2) f(4) l2 cr2 show ?thesis by simp
            next
              case (Inr h3)
              from st_setitem_Inr [OF Inr] s(1) obtain d2 where
                s3: "h2 ! s = ODict d2" "h3 = h2[s := ODict (dict_set (OUTPUT_VALUE self1) HNone d2)]"
                by auto
              have "inreg n0 n1 HNone \<or> HNone \<in> cache_vals self1" by (simp add: inreg_def)
              from copy_region_write [OF cr2 this _ s3(1)] s(2) l2 s3(2)
              have cr3: "copy_region n0 n1 (cache_vals self1) h3" by simp
              from s3(2) l2 have l3: "length h3 = length h1" by simp
              have old3: "\<And>b. b < length h \<Longrightarrow> b \<noteq> s \<Longrightarrow> h3 ! b = h ! b"
                using old2 s3(2) by simp
              from loop outputs_loop_st_falsy [OF g n ks \<open>has_condition_section self (h, snippet)\<close> go' s2 False Inr, of rest]
              have "outputs_loop_st self1 stack a n rest h3 w1 = (r, self', h', w')" by simp
              from fin [OF this cr3 l3 old3] show ?thesis .
            qed
          qed
        qed
      qed
    qed
  qed
qed

section \<open>The copy and the conditions\<close>

lemma reach_atom: "\<not> is_ref v \<Longrightarrow> reach h v = {}"
proof -
  assume n: "\<not> is_ref v"
  have "\<And>a. a \<in> reach h v \<Longrightarrow> False"
  proof -
    fix a assume "a \<in> reach h v"
    then show False using n by (induction rule: reach.induct) simp_all
  qed
  then show ?thesis by blast
qed

lemma copy_region_refs:
  "copy_region n0 n1 C h \<Longrightarrow> n0 \<le> b \<Longrightarrow> b < n1 \<Longrightarrow> v \<in> refs (h ! b) \<Longrightarrow> inreg n0 n1 v \<or> v \<in> C"
  unfolding copy_region_def by blast

lemma reach_region:
  assumes cr: "copy_region n0 n1 C h" and c: "inreg n0 n1 c" and a: "a \<in> reach h c"
  shows "n0 \<le> a \<and> a < n1 \<or> (\<exists>v \<in> C. a \<in> reach h v)"
  using a
proof (induction rule: reach.induct)
  case (root a)
  with c show ?case by (simp add: inreg_def)
next
  case (step b obj c')
  from step.hyps(2) have obj: "obj = h ! b" by (auto simp: store_get_def split: if_splits)
  from step.IH show ?case
  proof
    assume b: "n0 \<le> b \<and> b < n1"
    from step.hyps(3) obj have "HRef c' \<in> refs (h ! b)" by simp
    with cr b have "inreg n0 n1 (HRef c') \<or> HRef c' \<in> C"
      by (intro copy_region_refs [of n0 n1 C h b]) simp_all
    then show ?thesis
    proof
      assume "inreg n0 n1 (HRef c')"
      then show ?thesis by (simp add: inreg_def)
    next
      assume "HRef c' \<in> C"
      moreover have "c' \<in> reach h (HRef c')" by (rule reach.root) simp
      ultimately show ?thesis by blast
    qed
  next
    assume "\<exists>v \<in> C. b \<in> reach h v"
    then obtain v where v: "v \<in> C" "b \<in> reach h v" by blast
    from reach.step [OF v(2) step.hyps(2,3)] v(1) show ?thesis by blast
  qed
qed

lemma closed_copy_region:
  "closed_from n0 h \<Longrightarrow> copy_region n0 (length h) C h"
  by (auto simp: closed_from_def copy_region_def fresh_def inreg_def split: hval.splits)

lemma parse_outputs_conditions_st_no_items:
  "deepcopy_st fuel outputs [] h = Some (c, memo, h1) \<Longrightarrow>
   \<not> (\<exists>a items. c = HRef a \<and> store_get h1 a = Some (ODict items)) \<Longrightarrow>
     parse_outputs_conditions_st fuel self outputs stack h w =
       Some (Inl (AttributeError ''object has no attribute items''), self, h1, w)"
  by (auto simp: parse_outputs_conditions_st_def split: hval.splits option.splits hobj.splits)

lemma parse_outputs_conditions_st_loop:
  "deepcopy_st fuel outputs [] h = Some (HRef a, memo, h1) \<Longrightarrow>
   store_get h1 a = Some (ODict items) \<Longrightarrow>
   outputs_loop_st self stack a (length items) [0..<length items] h1 w = (r0, self', h', w') \<Longrightarrow>
     parse_outputs_conditions_st fuel self outputs stack h w =
       Some (case r0 of Inl e \<Rightarrow> Inl e | Inr u \<Rightarrow> Inr (HRef a), self', h', w')"
  by (cases r0) (simp_all add: parse_outputs_conditions_st_def)

lemma wf_example_store: "wf_store example_store"
  by (simp add: wf_store_def example_store_def valid_ref_def)

lemma example_evaluator_allocates: "evaluator_allocates (example_template_st defs)"
  by (simp add: evaluator_allocates_def example_template_st_def)

lemma example_run:
  "parse_outputs_conditions_st 4 (example_template_st [(''condA'', HBool False)])
       (HRef 0) () example_store 0 =
     Some (Inr (HRef 4),
           (example_template_st [(''condA'', HBool False)])
             \<lparr>priv_conditions := Some [(''condA'', HBool False)]\<rparr>,
           example_store @
             [ODict [(''out1'', HRef 5), (''out2'', HRef 7)],
              ODict [(''value'', HNone), (''condition'', HBool False)],
              OList [HStr ''x'', HRef 6],
              ODict [(''value'', HStr ''y'')]],
           0)"
  by (simp add: parse_outputs_conditions_st_def deepcopy_st.simps store_get_def list_append_def
        dict_setitem_def example_store_def eval_nat_numeral get_output_condition_st_def
        get_condition_st_def conditions_st_def resolve_conditions_st_def example_template_st_def
        upt_rec nth_append outputs_loop_st.simps)




section \<open>Separate entries\<close>

lemma deepcopy_st_memo_distinct:
  shows "deepcopy_st fuel v memo h = Some (v', memo', h') \<Longrightarrow> distinct (map snd memo) \<Longrightarrow>
           \<forall>y \<in> snd ` set memo. y < length h \<Longrightarrow>
             distinct (map snd memo') \<and> (\<forall>y \<in> snd ` set memo'. y < length h')"
    and "deepcopy_list_st n xs y0 memo h = Some (memo', h') \<Longrightarrow> distinct (map snd memo) \<Longrightarrow>
           \<forall>y \<in> snd ` set memo. y < length h \<Longrightarrow>
             distinct (map snd memo') \<and> (\<forall>y \<in> snd ` set memo'. y < length h')"
    and "deepcopy_dict_st n d y0 memo h = Some (memo', h') \<Longrightarrow> distinct (map snd memo) \<Longrightarrow>
           \<forall>y \<in> snd ` set memo. y < length h \<Longrightarrow>
             distinct (map snd memo') \<and> (\<forall>y \<in> snd ` set memo'. y < length h')"
proof (induction fuel v memo h and n xs y0 memo h and n d y0 memo h
       arbitrary: v' memo' h' and memo' h' and memo' h'
       rule: deepcopy_st_deepcopy_list_st_deepcopy_dict_st.induct)
  case (1 fuel v memo h)
  show ?case
  proof (cases v)
    case (HRef x)
    show ?thesis
    proof (cases "map_of memo x")
      case (Some y)
      with HRef "1.prems" show ?thesis by (simp add: deepcopy_st.simps)
    next
      case None
      with HRef "1.prems"(1) obtain n where n: "fuel = Suc n"
        by (cases fuel) (simp_all add: deepcopy_st.simps)
      from HRef None n "1.prems"(1) obtain obj where g: "store_get h x = Some obj"
        by (cases "store_get h x") (simp_all add: deepcopy_st.simps)
      have d1: "distinct (map snd ((x, length h) # memo))"
        using "1.prems"(2,3) by auto
      show ?thesis
      proof (cases obj)
        case (ODict d)
        have b1: "\<forall>y \<in> snd ` set ((x, length h) # memo). y < length (h @ [ODict []])"
          using "1.prems"(3) by auto
        from HRef None n g ODict "1.prems"(1)
        have r: "deepcopy_dict_st n d (length h) ((x, length h) # memo) (h @ [ODict []]) = Some (memo', h')"
          by (simp add: deepcopy_st.simps Let_def split: option.splits)
        from "1.IH"(1) [OF HRef None n g ODict refl r d1 b1] show ?thesis .
      next
        case (OList xs)
        have b1: "\<forall>y \<in> snd ` set ((x, length h) # memo). y < length (h @ [OList []])"
          using "1.prems"(3) by auto
        from HRef None n g OList "1.prems"(1)
        have r: "deepcopy_list_st n xs (length h) ((x, length h) # memo) (h @ [OList []]) = Some (memo', h')"
          by (simp add: deepcopy_st.simps Let_def split: option.splits)
        from "1.IH"(2) [OF HRef None n g OList refl r d1 b1] show ?thesis .
      qed
    qed
  qed (use "1.prems" in \<open>simp_all add: deepcopy_st.simps\<close>)
next
  case (2 n y memo h)
  then show ?case by simp
next
  case (3 n a xs y memo h)
  from "3.prems"(1) obtain a' memo1 h1 where
    r: "deepcopy_st n a memo h = Some (a', memo1, h1)"
    and r2: "deepcopy_list_st n xs y memo1 (list_append h1 y a') = Some (memo', h')"
    by (auto split: option.splits)
  from "3.IH"(1) [OF r "3.prems"(2,3)] have d1: "distinct (map snd memo1)"
    and b1: "\<forall>z \<in> snd ` set memo1. z < length (list_append h1 y a')" by simp_all
  from "3.IH"(2) [OF r refl refl r2 d1 b1] show ?case .
next
  case (4 n y memo h)
  then show ?case by simp
next
  case (5 n key v d y memo h)
  from "5.prems"(1) obtain v' memo1 h1 where
    r: "deepcopy_st n v memo h = Some (v', memo1, h1)"
    and r2: "deepcopy_dict_st n d y memo1 (dict_setitem h1 y key v') = Some (memo', h')"
    by (auto split: option.splits)
  from "5.IH"(1) [OF r "5.prems"(2,3)] have d1: "distinct (map snd memo1)"
    and b1: "\<forall>z \<in> snd ` set memo1. z < length (dict_setitem h1 y key v')" by simp_all
  from "5.IH"(2) [OF r refl refl r2 d1 b1] show ?case .
qed

lemma memo_inj:
  assumes "distinct (map snd memo)" and "map_of memo x1 = Some y" and "map_of memo x2 = Some y"
  shows "x1 = x2"
proof -
  from assms(2,3) have "(x1, y) \<in> set memo" "(x2, y) \<in> set memo" by (auto dest: map_of_SomeD)
  with assms(1) show ?thesis by (metis eq_key_imp_eq_value distinct_map inj_on_def prod.inject snd_conv)
qed

lemma ren_inj:
  assumes d: "distinct (map snd memo)" and c: "cov memo u" "cov memo v" and r: "is_ref u"
    and e: "ren memo u = ren memo v"
  shows "u = v"
proof -
  from r obtain x where u: "u = HRef x" by (cases u) simp_all
  with c(1) obtain y where y: "map_of memo x = Some y" by (auto simp: cov_def)
  with u e have rv: "ren memo v = HRef y" by simp
  then obtain x' where v: "v = HRef x'" by (cases v) simp_all
  with c(2) obtain y' where y': "map_of memo x' = Some y'" by (auto simp: cov_def)
  with v rv have "y' = y" by simp
  with y y' memo_inj [OF d] have "x = x'" by blast
  with u v show ?thesis by simp
qed

lemma is_ref_ren [simp]: "is_ref (ren memo v) = is_ref v"
  by (cases v) (auto split: option.splits)

lemma filter_is_ref_ren: "filter is_ref (map (ren memo) vs) = map (ren memo) (filter is_ref vs)"
  by (induction vs) simp_all

lemma separate_items_ren:
  assumes d: "distinct (map snd memo)" and s: "separate_items items x"
    and c: "\<forall>v \<in> snd ` set items. cov memo v" and m: "map_of memo x = Some a"
  shows "separate_items (map (\<lambda>(k, v). (k, ren memo v)) items) a"
proof -
  have ms: "map snd (map (\<lambda>(k, v). (k, ren memo v)) items) = map (ren memo) (map snd items)"
    by (induction items) auto
  from s have ds: "distinct (filter is_ref (map snd items))" and nx: "HRef x \<notin> set (map snd items)"
    by (simp_all add: separate_items_def)
  have "inj_on (ren memo) (set (filter is_ref (map snd items)))"
  proof (rule inj_onI)
    fix u v assume u: "u \<in> set (filter is_ref (map snd items))"
      and v: "v \<in> set (filter is_ref (map snd items))" and e: "ren memo u = ren memo v"
    from u v c have "cov memo u" "cov memo v" "is_ref u" by auto
    from ren_inj [OF d this e] show "u = v" .
  qed
  with ds have "distinct (map (ren memo) (filter is_ref (map snd items)))"
    by (simp only: distinct_map)
  then have d1: "distinct (filter is_ref (map (ren memo) (map snd items)))"
    by (simp only: filter_is_ref_ren)
  have n1: "HRef a \<notin> set (map (ren memo) (map snd items))"
  proof
    assume "HRef a \<in> set (map (ren memo) (map snd items))"
    then obtain v where v: "v \<in> snd ` set items" "ren memo v = HRef a" by force
    have cx: "cov memo (HRef x)" using m by (simp add: cov_def)
    from v(1) c have cv: "cov memo v" by blast
    from v(2) have "is_ref v" by (cases v) simp_all
    moreover from m v(2) have "ren memo v = ren memo (HRef x)" by simp
    ultimately have "v = HRef x" using ren_inj [OF d cv cx] by blast
    with v(1) nx show False by simp
  qed
  show ?thesis unfolding separate_items_def ms using d1 n1 by (intro conjI)
qed

lemma distinct_filter_nth:
  "distinct (filter P xs) \<Longrightarrow> i < length xs \<Longrightarrow> j < length xs \<Longrightarrow> i \<noteq> j \<Longrightarrow> P (xs ! i) \<Longrightarrow>
     xs ! i \<noteq> xs ! j"
proof (induction xs arbitrary: i j)
  case Nil
  then show ?case by simp
next
  case (Cons x xs)
  show ?case
  proof (cases i)
    case 0
    with Cons.prems obtain j' where j: "j = Suc j'" by (cases j) simp_all
    from 0 Cons.prems have "P x" by simp
    with Cons.prems(1) have "x \<notin> set (filter P xs)" by simp
    with \<open>P x\<close> have "x \<notin> set xs" by simp
    with j Cons.prems(3) 0 show ?thesis by auto
  next
    case (Suc i')
    show ?thesis
    proof (cases j)
      case 0
      from Suc Cons.prems have p: "P (xs ! i')" and l: "i' < length xs" by simp_all
      show ?thesis
      proof
        assume "(x # xs) ! i = (x # xs) ! j"
        with Suc 0 have e: "xs ! i' = x" by simp
        with p have "P x" by simp
        with Cons.prems(1) have "x \<notin> set (filter P xs)" by simp
        with \<open>P x\<close> have "x \<notin> set xs" by simp
        with e l show False by auto
      qed
    next
      case (Suc j')
      from Cons.prems(1) have "distinct (filter P xs)" by (simp split: if_splits)
      from Cons.IH [OF this, of i' j'] Cons.prems \<open>i = Suc i'\<close> Suc show ?thesis by simp
    qed
  qed
qed

lemma separate_items_nth:
  assumes "separate_items items a" and "i < length items" and "j < length items" and "i \<noteq> j"
    and "is_ref (snd (items ! i))"
  shows "snd (items ! i) \<noteq> snd (items ! j)"
proof -
  from assms(1) have "distinct (filter is_ref (map snd items))" by (simp add: separate_items_def)
  from distinct_filter_nth [OF this, of i j] assms(2-5) show ?thesis by simp
qed

lemma separate_items_self:
  "separate_items items a \<Longrightarrow> i < length items \<Longrightarrow> snd (items ! i) \<noteq> HRef a"
proof -
  assume s: "separate_items items a" and i: "i < length items"
  from i have "items ! i \<in> set items" by simp
  then have "snd (items ! i) \<in> set (map snd items)" by simp
  moreover from s have "HRef a \<notin> set (map snd items)"
    unfolding separate_items_def by (rule conjunct2)
  ultimately show ?thesis by metis
qed

lemma shallowD:
  "shallow self \<Longrightarrow> (\<And>s. v = HRef s \<Longrightarrow> store_get h s = store_get h' s) \<Longrightarrow>
     has_condition_section self (h, v) = has_condition_section self (h', v)"
  unfolding shallow_def by blast

lemma truthy_st_cong:
  "(\<And>c. cd = HRef c \<Longrightarrow> store_get h c = store_get h' c) \<Longrightarrow> truthy_st h cd = truthy_st h' cd"
  by (cases cd) simp_all

lemma outputs_loop_st_entries:
  assumes sep: "separate_items items a"
  shows "outputs_loop_st self stack a n is h w = (Inr u, self', h', w') \<Longrightarrow>
     evaluator_allocates self \<Longrightarrow> shallow self \<Longrightarrow>
     store_get h a = Some (ODict items) \<Longrightarrow> n = length items \<Longrightarrow>
     \<forall>v \<in> snd ` set items. valid_ref h v \<Longrightarrow> distinct is \<Longrightarrow> \<forall>i \<in> set is. i < n \<Longrightarrow>
       length h \<le> length h' \<and>
       (priv_conditions self \<noteq> None \<longrightarrow> self' = self \<and> length h' = length h) \<and>
       self' = self\<lparr>priv_conditions := priv_conditions self'\<rparr> \<and>
       (\<forall>b<length h.
          (\<forall>i \<in> set is. has_condition_section self (h, snd (items ! i)) \<longrightarrow>
             snd (items ! i) \<noteq> HRef b) \<longrightarrow> h' ! b = h ! b) \<and>
       (\<forall>i \<in> set is. has_condition_section self (h, snd (items ! i)) \<longrightarrow>
          (\<exists>s d name cds cd t. snd (items ! i) = HRef s \<and> s < length h \<and> h ! s = ODict d \<and>
             map_of d (CONDITION self) = Some (HStr name) \<and>
             priv_conditions self' = Some cds \<and> map_of cds name = Some cd \<and>
             ((is_ref cd \<longrightarrow> cd \<notin> snd ` set items) \<longrightarrow> t = truthy_st h' cd) \<and>
             h' ! s = ODict (if t then dict_set (OUTPUT_CONDITION self) cd d
                             else dict_set (OUTPUT_VALUE self) HNone
                                    (dict_set (OUTPUT_CONDITION self) cd d))))"
proof (induction "is" arbitrary: self h w)
  case Nil
  from Nil.prems(1,4,5) have "self' = self \<and> h' = h"
    by (simp add: outputs_loop_st.simps)
  then show ?case by simp
next
  case (Cons i rest)
  note loop = Cons.prems(1) and ev = Cons.prems(2) and sh = Cons.prems(3) and g = Cons.prems(4)
    and n = Cons.prems(5) [symmetric] and val = Cons.prems(6)
  from Cons.prems(7) have irest: "i \<notin> set rest" and drest: "distinct rest" by simp_all
  from Cons.prems(8) have i: "i < n" and rest: "\<forall>i \<in> set rest. i < n" by simp_all
  from store_get_dict [OF g] have ah: "a < length h" "h ! a = ODict items" by simp_all
  obtain key snippet where ks: "items ! i = (key, snippet)" by (cases "items ! i")
  then have si: "snd (items ! i) = snippet" by simp
  let ?G = ?case
  show ?case
  proof (cases "has_condition_section self (h, snippet)")
    case False
    from loop outputs_loop_st_skip [OF g n ks False, of stack rest w]
    have "outputs_loop_st self stack a n rest h w = (Inr u, self', h', w')" by simp
    from Cons.IH [OF this ev sh g Cons.prems(5) val drest rest] False si
    show ?thesis by simp
  next
    case True
    obtain gr self1 h1 w1 where
      go: "get_output_condition_st self stack snippet key h w = (gr, self1, h1, w1)"
      by (cases "get_output_condition_st self stack snippet key h w")
    from loop outputs_loop_st_cond_err [OF g n ks True, of stack w _ self1 h1 w1 rest] go
    obtain cd where gr: "gr = Inr cd" by (cases gr) simp_all
    note go' = go [unfolded gr]
    from get_output_condition_st_Inr [OF ev go' True] obtain s d name cds where
      s: "snippet = HRef s" "s < length h" "h ! s = ODict d"
      and nm: "map_of d (CONDITION self) = Some (HStr name)"
      and pc1: "priv_conditions self1 = Some cds" and cd: "map_of cds name = Some cd"
      and t1: "take (length h) h1 = h" and l1: "length h \<le> length h1"
      and s1: "self1 = self\<lparr>priv_conditions := Some cds\<rparr>"
      and keep: "priv_conditions self \<noteq> None \<longrightarrow> self1 = self \<and> h1 = h \<and> w1 = w"
      by blast
    from s1 have f1: "OUTPUT_CONDITION self1 = OUTPUT_CONDITION self"
      "OUTPUT_VALUE self1 = OUTPUT_VALUE self" "CONDITION self1 = CONDITION self"
      "has_condition_section self1 = has_condition_section self"
      by simp_all
    from s1 ev have ev1: "evaluator_allocates self1" by simp
    from s1 sh have sh1: "shallow self1" by simp
    have old1: "\<And>b. b < length h \<Longrightarrow> h1 ! b = h ! b"
    proof -
      fix b assume "b < length h"
      then have "take (length h) h1 ! b = h1 ! b" by (rule nth_take)
      with t1 show "h1 ! b = h ! b" by simp
    qed
    from s(2) l1 have sl1: "s < length h1" by simp
    from old1 [OF s(2)] s(3) have hs1: "h1 ! s = ODict d" by simp
    let ?d1 = "dict_set (OUTPUT_CONDITION self) cd d"
    from loop outputs_loop_st_set_err [OF g n ks True go', of _ rest]
    obtain h2 where s2: "st_setitem h1 snippet (OUTPUT_CONDITION self1) cd = Inr h2"
      by (cases "st_setitem h1 snippet (OUTPUT_CONDITION self1) cd") simp_all
    from st_setitem_Inr [OF s2] s(1) hs1 f1(1) have h2: "h2 = h1[s := ODict ?d1]" by auto
    from i n have im: "i < length items" by simp
    from separate_items_self [OF sep im] si s(1) have sa: "s \<noteq> a" by auto
    have other: "\<And>j. j \<in> set rest \<Longrightarrow> snd (items ! j) \<noteq> HRef s"
    proof -
      fix j assume j: "j \<in> set rest"
      with irest have "i \<noteq> j" by auto
      moreover from j rest n have "j < length items" by simp
      moreover from si s(1) have "is_ref (snd (items ! i))" by simp
      ultimately have "snd (items ! i) \<noteq> snd (items ! j)"
        using separate_items_nth [OF sep im] by blast
      with si s(1) show "snd (items ! j) \<noteq> HRef s" by simp
    qed
    have fin: "\<And>h3 t. outputs_loop_st self1 stack a n rest h3 w1 = (Inr u, self', h', w') \<Longrightarrow>
        t = truthy_st h2 cd \<Longrightarrow>
        h3 = h1[s := ODict (if t then ?d1 else dict_set (OUTPUT_VALUE self) HNone ?d1)] \<Longrightarrow> ?G"
    proof -
      fix h3 t
      assume l3: "outputs_loop_st self1 stack a n rest h3 w1 = (Inr u, self', h', w')"
        and t: "t = truthy_st h2 cd"
        and h3: "h3 = h1[s := ODict (if t then ?d1 else dict_set (OUTPUT_VALUE self) HNone ?d1)]"
      let ?D = "if t then ?d1 else dict_set (OUTPUT_VALUE self) HNone ?d1"
      from h3 have len3: "length h3 = length h1" by simp
      have old3: "\<And>b. b < length h \<Longrightarrow> b \<noteq> s \<Longrightarrow> h3 ! b = h ! b"
        using old1 h3 by simp
      from old3 [OF ah(1)] sa ah(2) ah(1) l1 len3 have g3: "store_get h3 a = Some (ODict items)"
        by (simp add: store_get_def)
      have val3: "\<forall>v \<in> snd ` set items. valid_ref h3 v"
      proof
        fix v assume "v \<in> snd ` set items"
        with val have "valid_ref h v" by blast
        with l1 len3 show "valid_ref h3 v" by (auto simp: valid_ref_def split: hval.splits)
      qed
      have hcs: "\<And>j. j \<in> set rest \<Longrightarrow>
          has_condition_section self1 (h3, snd (items ! j)) = has_condition_section self (h, snd (items ! j))"
      proof -
        fix j assume j: "j \<in> set rest"
        with rest n have "items ! j \<in> set items" by simp
        then have "snd (items ! j) \<in> snd ` set items" by simp
        with val have vj: "valid_ref h (snd (items ! j))" by blast
        have "has_condition_section self (h, snd (items ! j)) =
              has_condition_section self (h3, snd (items ! j))"
        proof (rule shallowD [OF sh])
          fix s' assume e: "snd (items ! j) = HRef s'"
          with other [OF j] have ne: "s' \<noteq> s" by auto
          from vj e have lt: "s' < length h" by (simp add: valid_ref_def)
          from old3 [OF lt ne] lt l1 len3 show "store_get h s' = store_get h3 s'"
            by (simp add: store_get_def)
        qed
        with f1(4) show "has_condition_section self1 (h3, snd (items ! j)) =
            has_condition_section self (h, snd (items ! j))" by simp
      qed
      from Cons.IH [OF l3 ev1 sh1 g3 Cons.prems(5) val3 drest rest]
      have q1: "length h3 \<le> length h'"
        and q2: "priv_conditions self1 \<noteq> None \<longrightarrow> self' = self1 \<and> length h' = length h3"
        and q4: "\<forall>b<length h3.
          (\<forall>i \<in> set rest. has_condition_section self1 (h3, snd (items ! i)) \<longrightarrow>
             snd (items ! i) \<noteq> HRef b) \<longrightarrow> h' ! b = h3 ! b"
        and q5: "\<forall>i \<in> set rest. has_condition_section self1 (h3, snd (items ! i)) \<longrightarrow>
          (\<exists>s d name cds cd t. snd (items ! i) = HRef s \<and> s < length h3 \<and> h3 ! s = ODict d \<and>
             map_of d (CONDITION self1) = Some (HStr name) \<and>
             priv_conditions self' = Some cds \<and> map_of cds name = Some cd \<and>
             ((is_ref cd \<longrightarrow> cd \<notin> snd ` set items) \<longrightarrow> t = truthy_st h' cd) \<and>
             h' ! s = ODict (if t then dict_set (OUTPUT_CONDITION self1) cd d
                             else dict_set (OUTPUT_VALUE self1) HNone
                                    (dict_set (OUTPUT_CONDITION self1) cd d)))"
        by blast+
      from q2 pc1 have e1: "self' = self1" and len': "length h' = length h1"
        using len3 by simp_all
      have c1: "length h \<le> length h'" using l1 len' by simp
      have c2: "priv_conditions self \<noteq> None \<longrightarrow> self' = self \<and> length h' = length h"
        using keep e1 len' by auto
      have c3: "self' = self\<lparr>priv_conditions := priv_conditions self'\<rparr>"
        using e1 s1 by simp
      have c4: "\<forall>b<length h.
          (\<forall>i \<in> set (i # rest). has_condition_section self (h, snd (items ! i)) \<longrightarrow>
             snd (items ! i) \<noteq> HRef b) \<longrightarrow> h' ! b = h ! b"
      proof (intro allI impI)
        fix b assume b: "b < length h"
          and nb: "\<forall>i \<in> set (i # rest). has_condition_section self (h, snd (items ! i)) \<longrightarrow>
             snd (items ! i) \<noteq> HRef b"
        from nb True si s(1) have bs: "b \<noteq> s" by auto
        from nb hcs have "\<forall>i \<in> set rest. has_condition_section self1 (h3, snd (items ! i)) \<longrightarrow>
             snd (items ! i) \<noteq> HRef b" by simp
        moreover from b l1 len3 have "b < length h3" by simp
        ultimately have "h' ! b = h3 ! b" using q4 by blast
        with old3 [OF b bs] show "h' ! b = h ! b" by simp
      qed
      have fs: "h' ! s = ODict ?D"
      proof -
        from other have "\<forall>i \<in> set rest. has_condition_section self1 (h3, snd (items ! i)) \<longrightarrow>
             snd (items ! i) \<noteq> HRef s" by blast
        moreover from sl1 len3 have "s < length h3" by simp
        ultimately have "h' ! s = h3 ! s" using q4 by blast
        with h3 sl1 show ?thesis by simp
      qed
      have tr: "(is_ref cd \<longrightarrow> cd \<notin> snd ` set items) \<longrightarrow> t = truthy_st h' cd"
      proof
        assume nc': "is_ref cd \<longrightarrow> cd \<notin> snd ` set items"
        have "truthy_st h2 cd = truthy_st h' cd"
        proof (rule truthy_st_cong)
          fix c assume c: "cd = HRef c"
          with nc' have nc: "cd \<notin> snd ` set items" by simp
          from im have "items ! i \<in> set items" by simp
          then have "snd (items ! i) \<in> snd ` set items" by simp
          with si s(1) nc c have cs: "c \<noteq> s" by metis
          show "store_get h2 c = store_get h' c"
          proof (cases "c < length h1")
            case False
            with h2 len' show ?thesis by (simp add: store_get_def)
          next
            case True
            have "\<forall>i \<in> set rest. has_condition_section self1 (h3, snd (items ! i)) \<longrightarrow>
                snd (items ! i) \<noteq> HRef c"
            proof (intro ballI impI)
              fix j assume "j \<in> set rest"
              with rest n have "items ! j \<in> set items" by simp
              then have "snd (items ! j) \<in> snd ` set items" by simp
              with nc c show "snd (items ! j) \<noteq> HRef c" by metis
            qed
            moreover from True len3 have "c < length h3" by simp
            ultimately have "h' ! c = h3 ! c" using q4 by blast
            with h3 h2 cs True len' show ?thesis by (simp add: store_get_def)
          qed
        qed
        with t show "t = truthy_st h' cd" by simp
      qed
      have c5: "\<forall>i \<in> set (i # rest). has_condition_section self (h, snd (items ! i)) \<longrightarrow>
          (\<exists>s d name cds cd t. snd (items ! i) = HRef s \<and> s < length h \<and> h ! s = ODict d \<and>
             map_of d (CONDITION self) = Some (HStr name) \<and>
             priv_conditions self' = Some cds \<and> map_of cds name = Some cd \<and>
             ((is_ref cd \<longrightarrow> cd \<notin> snd ` set items) \<longrightarrow> t = truthy_st h' cd) \<and>
             h' ! s = ODict (if t then dict_set (OUTPUT_CONDITION self) cd d
                             else dict_set (OUTPUT_VALUE self) HNone
                                    (dict_set (OUTPUT_CONDITION self) cd d)))"
      proof (intro ballI impI)
        fix j assume j: "j \<in> set (i # rest)"
          and hj: "has_condition_section self (h, snd (items ! j))"
        show "\<exists>s d name cds cd t. snd (items ! j) = HRef s \<and> s < length h \<and> h ! s = ODict d \<and>
             map_of d (CONDITION self) = Some (HStr name) \<and>
             priv_conditions self' = Some cds \<and> map_of cds name = Some cd \<and>
             ((is_ref cd \<longrightarrow> cd \<notin> snd ` set items) \<longrightarrow> t = truthy_st h' cd) \<and>
             h' ! s = ODict (if t then dict_set (OUTPUT_CONDITION self) cd d
                             else dict_set (OUTPUT_VALUE self) HNone
                                    (dict_set (OUTPUT_CONDITION self) cd d))"
        proof (cases "j = i")
          case True
          from e1 pc1 have "priv_conditions self' = Some cds" by simp
          with True si s nm cd tr fs show ?thesis by blast
        next
          case False
          with j have jr: "j \<in> set rest" by simp
          with hj hcs have "has_condition_section self1 (h3, snd (items ! j))" by simp
          with q5 jr obtain sj dj namej cdsj cdj tj where
            r: "snd (items ! j) = HRef sj" "sj < length h3" "h3 ! sj = ODict dj"
              "map_of dj (CONDITION self1) = Some (HStr namej)"
              "priv_conditions self' = Some cdsj" "map_of cdsj namej = Some cdj"
              "(is_ref cdj \<longrightarrow> cdj \<notin> snd ` set items) \<longrightarrow> tj = truthy_st h' cdj"
              "h' ! sj = ODict (if tj then dict_set (OUTPUT_CONDITION self1) cdj dj
                             else dict_set (OUTPUT_VALUE self1) HNone
                                    (dict_set (OUTPUT_CONDITION self1) cdj dj))"
            by blast
          from jr rest n have "items ! j \<in> set items" by simp
          then have "snd (items ! j) \<in> snd ` set items" by simp
          with val have "valid_ref h (snd (items ! j))" by blast
          with r(1) have lt: "sj < length h" by (simp add: valid_ref_def)
          from other [OF jr] r(1) have "sj \<noteq> s" by auto
          from old3 [OF lt this] r(3) have "h ! sj = ODict dj" by simp
          with r lt f1 show ?thesis by auto
        qed
      qed
      from c1 c2 c3 c4 c5 show ?G by blast
    qed
    show ?thesis
    proof (cases "truthy_st h2 cd")
      case True
      from loop outputs_loop_st_truthy [OF g n ks \<open>has_condition_section self (h, snippet)\<close> go' s2 True, of rest]
      have "outputs_loop_st self1 stack a n rest h2 w1 = (Inr u, self', h', w')" by simp
      from fin [OF this, of True] True h2 show ?thesis by simp
    next
      case False
      from loop outputs_loop_st_value_err [OF g n ks \<open>has_condition_section self (h, snippet)\<close> go' s2 False, of _ rest]
      obtain h3 where s3: "st_setitem h2 snippet (OUTPUT_VALUE self1) HNone = Inr h3"
        by (cases "st_setitem h2 snippet (OUTPUT_VALUE self1) HNone") simp_all
      from st_setitem_Inr [OF s3] s(1) h2 sl1 f1(2)
      have h3: "h3 = h1[s := ODict (dict_set (OUTPUT_VALUE self) HNone ?d1)]" by auto
      from loop outputs_loop_st_falsy [OF g n ks \<open>has_condition_section self (h, snippet)\<close> go' s2 False s3, of rest]
      have "outputs_loop_st self1 stack a n rest h3 w1 = (Inr u, self', h', w')" by simp
      from fin [OF this, of False] False h3 show ?thesis by simp
    qed
  qed
qed

lemma parse_outputs_conditions_st_Inr:
  assumes "parse_outputs_conditions_st fuel self outputs stack h w = Some (Inr res, self', h', w')"
  shows "\<exists>memo h1 a items u. deepcopy_st fuel outputs [] h = Some (HRef a, memo, h1) \<and>
           res = HRef a \<and> store_get h1 a = Some (ODict items) \<and>
           outputs_loop_st self stack a (length items) [0..<length items] h1 w = (Inr u, self', h', w')"
proof -
  from assms obtain c memo h1 where d: "deepcopy_st fuel outputs [] h = Some (c, memo, h1)"
    by (cases "deepcopy_st fuel outputs [] h") (auto simp: parse_outputs_conditions_st_def)
  have "\<exists>a items. c = HRef a \<and> store_get h1 a = Some (ODict items)"
  proof (rule ccontr)
    assume "\<not> (\<exists>a items. c = HRef a \<and> store_get h1 a = Some (ODict items))"
    from parse_outputs_conditions_st_no_items [OF d this, of self stack w] assms
    show False by simp
  qed
  then obtain a items where c: "c = HRef a" and g: "store_get h1 a = Some (ODict items)"
    by blast
  obtain r0 self0 h0 w0 where
    loop: "outputs_loop_st self stack a (length items) [0..<length items] h1 w = (r0, self0, h0, w0)"
    by (cases "outputs_loop_st self stack a (length items) [0..<length items] h1 w")
  from parse_outputs_conditions_st_loop [OF d [unfolded c] g loop] assms
  have e: "(case r0 of Inl e \<Rightarrow> Inl e | Inr u \<Rightarrow> Inr (HRef a)) = Inr res" "self0 = self'"
    "h0 = h'" "w0 = w'" by simp_all
  from e(1) obtain u where "r0 = Inr u" "res = HRef a" by (cases r0) auto
  with d c g loop e(2-4) show ?thesis by blast
qed

lemma ren_obj_dict:
  "ren_obj memo obj = ODict items \<Longrightarrow>
     \<exists>items0. obj = ODict items0 \<and> items = map (\<lambda>(k, v). (k, ren memo v)) items0"
  by (cases obj) simp_all

lemma ren_ref:
  "ren memo v = HRef a \<Longrightarrow> cov memo v \<Longrightarrow> \<exists>x. v = HRef x \<and> map_of memo x = Some a"
  by (cases v) (auto simp: cov_def)

lemma parse_outputs_conditions_st_entries:
  assumes run: "parse_outputs_conditions_st fuel self outputs stack h w = Some (Inr res, self', h', w')"
    and wf: "wf_store h" and va: "valid_ref h outputs" and fu: "length h \<le> fuel"
    and ev: "evaluator_allocates self" and sh: "shallow self"
    and sep: "separate_snippets h outputs"
  shows "\<exists>x items0 memo h1 a items.
     outputs = HRef x \<and> store_get h x = Some (ODict items0) \<and>
     deepcopy_st fuel outputs [] h = Some (res, memo, h1) \<and> res = HRef a \<and>
     items = map (\<lambda>(k, v). (k, ren memo v)) items0 \<and>
     store_get h1 a = Some (ODict items) \<and> store_get h' a = Some (ODict items) \<and>
     length h1 \<le> length h' \<and> (\<forall>v \<in> snd ` set items. valid_ref h1 v) \<and>
     (\<forall>b<length h1.
        (\<forall>(key, snippet) \<in> set items. has_condition_section self (h1, snippet) \<longrightarrow>
           snippet \<noteq> HRef b) \<longrightarrow> h' ! b = h1 ! b) \<and>
     (\<forall>(key, snippet) \<in> set items. has_condition_section self (h1, snippet) \<longrightarrow>
        (\<exists>s d name cds cd t. snippet = HRef s \<and> store_get h1 s = Some (ODict d) \<and>
           map_of d (CONDITION self) = Some (HStr name) \<and>
           priv_conditions self' = Some cds \<and> map_of cds name = Some cd \<and>
           ((is_ref cd \<longrightarrow> cd \<notin> snd ` set items) \<longrightarrow> t = truthy_st h' cd) \<and>
           store_get h' s =
             Some (ODict (if t then dict_set (OUTPUT_CONDITION self) cd d
                          else dict_set (OUTPUT_VALUE self) HNone
                                 (dict_set (OUTPUT_CONDITION self) cd d)))))"
proof -
  from parse_outputs_conditions_st_Inr [OF run] obtain memo h1 a items u where
    d: "deepcopy_st fuel outputs [] h = Some (HRef a, memo, h1)" and res: "res = HRef a"
    and g: "store_get h1 a = Some (ODict items)"
    and loop: "outputs_loop_st self stack a (length items) [0..<length items] h1 w = (Inr u, self', h', w')"
    by blast
  from fu have cd: "card (unvisited h []) \<le> fuel" by (simp add: card_unvisited_init)
  from deepcopy_st_total(1) [OF wf dc_inv_init va cd] obtain v0 memo0 h0 where
    t0: "deepcopy_st fuel outputs [] h = Some (v0, memo0, h0)" "dc_inv h memo0 h0"
      "fresh (length h) h0 v0"
    by blast
  from t0(1) d have "v0 = HRef a" "memo0 = memo" "h0 = h1" by simp_all
  with t0(2,3) have i: "dc_inv h memo h1" and f: "fresh (length h) h1 (HRef a)"
    by simp_all
  from wf have dk: "list_all keys_distinct h"
    by (simp add: wf_store_def list_all_iff)
  from deepcopy_st_iso(1) [OF wf dk dc_inv_init va cd d]
  have rn: "HRef a = ren memo outputs" and cv: "cov memo outputs"
    and cp: "copied h [] (length h) memo h1"
    by simp_all
  from ren_ref [OF rn [symmetric] cv] obtain x where x: "outputs = HRef x" "map_of memo x = Some a"
    by blast
  from va x(1) have xl: "x < length h" by (simp add: valid_ref_def)
  from cp x(2) have ca: "store_get h1 a = Some (ren_obj memo (h ! x))"
    and cr: "\<forall>u \<in> refs (h ! x). cov memo u"
    by (simp_all add: copied_def)
  from ca g have "ren_obj memo (h ! x) = ODict items" by simp
  from ren_obj_dict [OF this] obtain items0 where
    i0: "h ! x = ODict items0" "items = map (\<lambda>(k, v). (k, ren memo v)) items0"
    by blast
  from xl i0(1) have gx: "store_get h x = Some (ODict items0)" by (simp add: store_get_def)
  from sep x(1) gx have s0: "separate_items items0 x" by (simp add: separate_snippets_def)
  have "distinct (map snd ([] :: (nat \<times> nat) list))" "\<forall>y \<in> snd ` set ([] :: (nat \<times> nat) list). y < length h"
    by simp_all
  from deepcopy_st_memo_distinct(1) [OF d this] have dm: "distinct (map snd memo)" by simp
  from cr i0(1) have "\<forall>v \<in> snd ` set items0. cov memo v" by simp
  from separate_items_ren [OF dm s0 this x(2)] i0(2) have sp: "separate_items items a" by simp
  from i have l1: "length h \<le> length h1" and c1: "closed_from (length h) h1"
    by (simp_all add: dc_inv_def)
  from f have a: "length h \<le> a" "a < length h1" by (simp_all add: fresh_def)
  from store_get_dict [OF g] have ha: "h1 ! a = ODict items" by simp
  have val: "\<forall>v \<in> snd ` set items. valid_ref h1 v"
  proof
    fix v assume "v \<in> snd ` set items"
    with ha have "v \<in> refs (h1 ! a)" by simp
    from closed_from_refs [OF c1 a this] show "valid_ref h1 v"
      by (auto simp: fresh_def valid_ref_def split: hval.splits)
  qed
  have ix: "distinct [0..<length items]" "\<forall>i \<in> set [0..<length items]. i < length items"
    by simp_all
  from outputs_loop_st_entries [OF sp loop ev sh g refl val ix]
  have q1: "length h1 \<le> length h'"
    and q4: "\<forall>b<length h1.
          (\<forall>i \<in> set [0..<length items]. has_condition_section self (h1, snd (items ! i)) \<longrightarrow>
             snd (items ! i) \<noteq> HRef b) \<longrightarrow> h' ! b = h1 ! b"
    and q5: "\<forall>i \<in> set [0..<length items]. has_condition_section self (h1, snd (items ! i)) \<longrightarrow>
          (\<exists>s d name cds cd t. snd (items ! i) = HRef s \<and> s < length h1 \<and> h1 ! s = ODict d \<and>
             map_of d (CONDITION self) = Some (HStr name) \<and>
             priv_conditions self' = Some cds \<and> map_of cds name = Some cd \<and>
             ((is_ref cd \<longrightarrow> cd \<notin> snd ` set items) \<longrightarrow> t = truthy_st h' cd) \<and>
             h' ! s = ODict (if t then dict_set (OUTPUT_CONDITION self) cd d
                             else dict_set (OUTPUT_VALUE self) HNone
                                    (dict_set (OUTPUT_CONDITION self) cd d)))"
    by blast+
  have frame: "\<forall>b<length h1.
        (\<forall>(key, snippet) \<in> set items. has_condition_section self (h1, snippet) \<longrightarrow>
           snippet \<noteq> HRef b) \<longrightarrow> h' ! b = h1 ! b"
  proof (intro allI impI)
    fix b assume b: "b < length h1"
      and nb: "\<forall>(key, snippet) \<in> set items. has_condition_section self (h1, snippet) \<longrightarrow>
           snippet \<noteq> HRef b"
    have "\<forall>i \<in> set [0..<length items]. has_condition_section self (h1, snd (items ! i)) \<longrightarrow>
             snd (items ! i) \<noteq> HRef b"
    proof (intro ballI impI)
      fix i assume "i \<in> set [0..<length items]"
        and hc: "has_condition_section self (h1, snd (items ! i))"
      then have "items ! i \<in> set items" by simp
      with nb hc show "snd (items ! i) \<noteq> HRef b" by (cases "items ! i") auto
    qed
    with q4 b show "h' ! b = h1 ! b" by blast
  qed
  have ga: "store_get h' a = Some (ODict items)"
  proof -
    have "\<forall>(key, snippet) \<in> set items. has_condition_section self (h1, snippet) \<longrightarrow>
           snippet \<noteq> HRef a"
    proof (intro ballI, clarify)
      fix key assume "(key, HRef a) \<in> set items"
      then have "HRef a \<in> set (map snd items)" by force
      with sp show False by (simp add: separate_items_def)
    qed
    with frame a(2) have "h' ! a = h1 ! a" by blast
    with ha a(2) q1 show ?thesis by (simp add: store_get_def)
  qed
  have ent: "\<forall>(key, snippet) \<in> set items. has_condition_section self (h1, snippet) \<longrightarrow>
        (\<exists>s d name cds cd t. snippet = HRef s \<and> store_get h1 s = Some (ODict d) \<and>
           map_of d (CONDITION self) = Some (HStr name) \<and>
           priv_conditions self' = Some cds \<and> map_of cds name = Some cd \<and>
           ((is_ref cd \<longrightarrow> cd \<notin> snd ` set items) \<longrightarrow> t = truthy_st h' cd) \<and>
           store_get h' s =
             Some (ODict (if t then dict_set (OUTPUT_CONDITION self) cd d
                          else dict_set (OUTPUT_VALUE self) HNone
                                 (dict_set (OUTPUT_CONDITION self) cd d))))"
  proof (intro ballI, clarify)
    fix key snippet assume m: "(key, snippet) \<in> set items"
      and hc: "has_condition_section self (h1, snippet)"
    from m obtain i where i: "i < length items" "items ! i = (key, snippet)"
      by (auto simp: in_set_conv_nth)
    from i(1) have ii: "i \<in> set [0..<length items]" by simp
    from hc i(2) have "has_condition_section self (h1, snd (items ! i))" by simp
    with q5 ii obtain s d name cds cd t where
      r: "snd (items ! i) = HRef s" "s < length h1" "h1 ! s = ODict d"
        "map_of d (CONDITION self) = Some (HStr name)"
        "priv_conditions self' = Some cds" "map_of cds name = Some cd"
        "(is_ref cd \<longrightarrow> cd \<notin> snd ` set items) \<longrightarrow> t = truthy_st h' cd"
        "h' ! s = ODict (if t then dict_set (OUTPUT_CONDITION self) cd d
                             else dict_set (OUTPUT_VALUE self) HNone
                                    (dict_set (OUTPUT_CONDITION self) cd d))"
      by blast
    from r(2,3) have g1: "store_get h1 s = Some (ODict d)" by (simp add: store_get_def)
    from r(2,8) q1 have g2: "store_get h' s =
             Some (ODict (if t then dict_set (OUTPUT_CONDITION self) cd d
                          else dict_set (OUTPUT_VALUE self) HNone
                                 (dict_set (OUTPUT_CONDITION self) cd d)))"
      by (simp add: store_get_def)
    from r(1) i(2) have "snippet = HRef s" by simp
    with g1 g2 r(4-7) show "\<exists>s d name cds cd t. snippet = HRef s \<and> store_get h1 s = Some (ODict d) \<and>
           map_of d (CONDITION self) = Some (HStr name) \<and>
           priv_conditions self' = Some cds \<and> map_of cds name = Some cd \<and>
           ((is_ref cd \<longrightarrow> cd \<notin> snd ` set items) \<longrightarrow> t = truthy_st h' cd) \<and>
           store_get h' s =
             Some (ODict (if t then dict_set (OUTPUT_CONDITION self) cd d
                          else dict_set (OUTPUT_VALUE self) HNone
                                 (dict_set (OUTPUT_CONDITION self) cd d)))"
      by blast
  qed
  from d res have d': "deepcopy_st fuel outputs [] h = Some (res, memo, h1)" by simp
  show ?thesis
    by (rule exI [of _ x], rule exI [of _ items0], rule exI [of _ memo], rule exI [of _ h1],
        rule exI [of _ a], rule exI [of _ items], intro conjI)
       (fact x(1), fact gx, fact d', fact res, fact i0(2), fact g, fact ga, fact q1, fact val, fact frame,
        fact ent)
qed

lemma applied_fields:
  assumes "oc \<noteq> ov"
    and "d' = (if t then dict_set oc cd d else dict_set ov HNone (dict_set oc cd d))"
  shows "map_of d' oc = Some cd" and "\<not> t \<Longrightarrow> map_of d' ov = Some HNone"
    and "t \<Longrightarrow> map_of d' ov = map_of d ov"
  using assms by (auto simp: map_of_dict_set)

lemma example_shallow: "shallow (example_template_st defs)"
  unfolding shallow_def
proof (intro allI impI)
  fix h h' :: store and v :: hval
  assume "\<forall>s. v = HRef s \<longrightarrow> store_get h s = store_get h' s"
  then show "has_condition_section (example_template_st defs) (h, v) =
      has_condition_section (example_template_st defs) (h', v)"
    by (cases v) (simp_all add: example_template_st_def)
qed

section \<open>Conditions applied to the outputs\<close>

text \<open>
  The assignments of lines 156 to 158 go into the objects of the copy, and \<open>deepcopy\<close>
  keeps the sharing of the input: an object that two places of the outputs hold is one
  object in the copy, changed for both. In \<open>nested_store\<close> the value of the entry \<open>a\<close>
  is the snippet of the entry \<open>b\<close>. With \<open>c1\<close> true and \<open>c2\<close> false the entry \<open>a\<close> of
  the result has the condition \<open>True\<close>, and its value, which was
  \<open>{"condition": "c2", "value": "x"}\<close>, is \<open>{"condition": False, "value": None}\<close>.
\<close>

theorem output_conditions_nested_counterexample:
  "parse_outputs_conditions_st 3
       (example_template_st [(''c1'', HBool True), (''c2'', HBool False)])
       (HRef 0) () nested_store 0 =
     Some (Inr (HRef 3),
           (example_template_st [(''c1'', HBool True), (''c2'', HBool False)])
             \<lparr>priv_conditions := Some [(''c1'', HBool True), (''c2'', HBool False)]\<rparr>,
           nested_store @
             [ODict [(''b'', HRef 4), (''a'', HRef 5)],
              ODict [(''condition'', HBool False), (''value'', HNone)],
              ODict [(''condition'', HBool True), (''value'', HRef 4)]],
           0) \<and>
   wf_store nested_store \<and>
   store_get nested_store 2 = Some (ODict [(''condition'', HStr ''c1''), (''value'', HRef 1)]) \<and>
   store_get nested_store 1 = Some (ODict [(''condition'', HStr ''c2''), (''value'', HStr ''x'')])"
  by (simp add: parse_outputs_conditions_st_def deepcopy_st.simps store_get_def list_append_def
        dict_setitem_def nested_store_def eval_nat_numeral get_output_condition_st_def
        get_condition_st_def conditions_st_def resolve_conditions_st_def example_template_st_def
        upt_rec nth_append outputs_loop_st.simps wf_store_def valid_ref_def)

text \<open>
  Claim C6, for outputs whose entries are separate objects (no two entries hold the
  same object and no entry holds the outputs themselves), a dialect whose
  \<open>has_condition_section\<close> looks at the snippet's own object only and whose
  \<open>OUTPUT_CONDITION\<close> and \<open>OUTPUT_VALUE\<close> differ, and an evaluator that changes no
  object that exists. When \<open>parse_outputs_conditions\<close> returns, it returns the copy
  \<open>deepcopy\<close> made, a dictionary with the keys of the outputs in their order, every
  entry the copy of the entry of the outputs. Every entry of it with a condition
  section has the resolved value of the condition it names under \<open>OUTPUT_CONDITION\<close>;
  its \<open>OUTPUT_VALUE\<close> is \<open>None\<close> when that value is \<open>False\<close>, and is what \<open>deepcopy\<close>
  had put there when that value is \<open>True\<close>. No object is changed after the copy
  except the snippets of the entries with a condition section: the value is unchanged
  as data unless such a snippet is part of it. With the conditions \<open>{"condA": false}\<close>
  the outputs \<open>{"out1": {"value": "x", "condition": "condA"}}\<close> become
  \<open>{"out1": {"value": null, "condition": false}}\<close>.
\<close>

theorem output_conditions_applied:
  assumes "parse_outputs_conditions_st fuel self outputs stack h w = Some (Inr res, self', h', w')"
    and "wf_store h" and "valid_ref h outputs" and "length h \<le> fuel"
    and "evaluator_allocates self" and "shallow self"
    and "separate_snippets h outputs"
    and "OUTPUT_CONDITION self \<noteq> OUTPUT_VALUE self"
  shows "\<exists>x items0 memo h1 a items.
     outputs = HRef x \<and> store_get h x = Some (ODict items0) \<and>
     deepcopy_st fuel outputs [] h = Some (res, memo, h1) \<and> res = HRef a \<and>
     items = map (\<lambda>(k, v). (k, ren memo v)) items0 \<and>
     store_get h1 a = Some (ODict items) \<and> store_get h' a = Some (ODict items) \<and>
     (\<forall>(key, snippet) \<in> set items. has_condition_section self (h1, snippet) \<longrightarrow>
        (\<exists>s d d' name cds cd. snippet = HRef s \<and> store_get h1 s = Some (ODict d) \<and>
           store_get h' s = Some (ODict d') \<and>
           map_of d (CONDITION self) = Some (HStr name) \<and>
           priv_conditions self' = Some cds \<and> map_of cds name = Some cd \<and>
           map_of d' (OUTPUT_CONDITION self) = Some cd \<and>
           (cd = HBool False \<longrightarrow> map_of d' (OUTPUT_VALUE self) = Some HNone) \<and>
           (cd = HBool True \<longrightarrow>
              map_of d' (OUTPUT_VALUE self) = map_of d (OUTPUT_VALUE self)))) \<and>
     (\<forall>b<length h1.
        (\<forall>(key, snippet) \<in> set items. has_condition_section self (h1, snippet) \<longrightarrow>
           snippet \<noteq> HRef b) \<longrightarrow> h' ! b = h1 ! b)"
proof -
  from parse_outputs_conditions_st_entries [OF assms(1-7)] show ?thesis
  proof (elim exE conjE)
    fix x items0 memo h1 a items
    assume p: "outputs = HRef x" "store_get h x = Some (ODict items0)"
      "deepcopy_st fuel outputs [] h = Some (res, memo, h1)" "res = HRef a"
      "items = map (\<lambda>(k, v). (k, ren memo v)) items0"
      "store_get h1 a = Some (ODict items)" "store_get h' a = Some (ODict items)"
      and frame: "\<forall>b<length h1.
        (\<forall>(key, snippet) \<in> set items. has_condition_section self (h1, snippet) \<longrightarrow>
           snippet \<noteq> HRef b) \<longrightarrow> h' ! b = h1 ! b"
      and ent: "\<forall>(key, snippet) \<in> set items. has_condition_section self (h1, snippet) \<longrightarrow>
        (\<exists>s d name cds cd t. snippet = HRef s \<and> store_get h1 s = Some (ODict d) \<and>
           map_of d (CONDITION self) = Some (HStr name) \<and>
           priv_conditions self' = Some cds \<and> map_of cds name = Some cd \<and>
           ((is_ref cd \<longrightarrow> cd \<notin> snd ` set items) \<longrightarrow> t = truthy_st h' cd) \<and>
           store_get h' s =
             Some (ODict (if t then dict_set (OUTPUT_CONDITION self) cd d
                          else dict_set (OUTPUT_VALUE self) HNone
                                 (dict_set (OUTPUT_CONDITION self) cd d))))"
    have ent': "\<forall>(key, snippet) \<in> set items. has_condition_section self (h1, snippet) \<longrightarrow>
        (\<exists>s d d' name cds cd. snippet = HRef s \<and> store_get h1 s = Some (ODict d) \<and>
           store_get h' s = Some (ODict d') \<and>
           map_of d (CONDITION self) = Some (HStr name) \<and>
           priv_conditions self' = Some cds \<and> map_of cds name = Some cd \<and>
           map_of d' (OUTPUT_CONDITION self) = Some cd \<and>
           (cd = HBool False \<longrightarrow> map_of d' (OUTPUT_VALUE self) = Some HNone) \<and>
           (cd = HBool True \<longrightarrow>
              map_of d' (OUTPUT_VALUE self) = map_of d (OUTPUT_VALUE self)))"
    proof (intro ballI, clarify)
      fix key snippet assume m: "(key, snippet) \<in> set items"
        and hc: "has_condition_section self (h1, snippet)"
      from bspec [OF ent m] hc
      have "\<exists>s d name cds cd t. snippet = HRef s \<and> store_get h1 s = Some (ODict d) \<and>
           map_of d (CONDITION self) = Some (HStr name) \<and>
           priv_conditions self' = Some cds \<and> map_of cds name = Some cd \<and>
           ((is_ref cd \<longrightarrow> cd \<notin> snd ` set items) \<longrightarrow> t = truthy_st h' cd) \<and>
           store_get h' s =
             Some (ODict (if t then dict_set (OUTPUT_CONDITION self) cd d
                          else dict_set (OUTPUT_VALUE self) HNone
                                 (dict_set (OUTPUT_CONDITION self) cd d)))"
        by simp
      then show "\<exists>s d d' name cds cd. snippet = HRef s \<and> store_get h1 s = Some (ODict d) \<and>
           store_get h' s = Some (ODict d') \<and>
           map_of d (CONDITION self) = Some (HStr name) \<and>
           priv_conditions self' = Some cds \<and> map_of cds name = Some cd \<and>
           map_of d' (OUTPUT_CONDITION self) = Some cd \<and>
           (cd = HBool False \<longrightarrow> map_of d' (OUTPUT_VALUE self) = Some HNone) \<and>
           (cd = HBool True \<longrightarrow>
              map_of d' (OUTPUT_VALUE self) = map_of d (OUTPUT_VALUE self))"
      proof (elim exE conjE)
        fix s d name cds cd t
        assume r: "snippet = HRef s" "store_get h1 s = Some (ODict d)"
          "map_of d (CONDITION self) = Some (HStr name)"
          "priv_conditions self' = Some cds" "map_of cds name = Some cd"
          and tt: "(is_ref cd \<longrightarrow> cd \<notin> snd ` set items) \<longrightarrow> t = truthy_st h' cd"
          and fs: "store_get h' s =
             Some (ODict (if t then dict_set (OUTPUT_CONDITION self) cd d
                          else dict_set (OUTPUT_VALUE self) HNone
                                 (dict_set (OUTPUT_CONDITION self) cd d)))"
        let ?d' = "if t then dict_set (OUTPUT_CONDITION self) cd d
               else dict_set (OUTPUT_VALUE self) HNone (dict_set (OUTPUT_CONDITION self) cd d)"
        note af = applied_fields [OF assms(8), of ?d' t cd d, OF refl]
        have f: "cd = HBool False \<longrightarrow> map_of ?d' (OUTPUT_VALUE self) = Some HNone"
        proof
          assume "cd = HBool False"
          with tt have "\<not> t" by simp
          then show "map_of ?d' (OUTPUT_VALUE self) = Some HNone" by (rule af(2))
        qed
        have t: "cd = HBool True \<longrightarrow> map_of ?d' (OUTPUT_VALUE self) = map_of d (OUTPUT_VALUE self)"
        proof
          assume "cd = HBool True"
          with tt have "t" by simp
          then show "map_of ?d' (OUTPUT_VALUE self) = map_of d (OUTPUT_VALUE self)" by (rule af(3))
        qed
        show ?thesis
          by (rule exI [of _ s], rule exI [of _ d], rule exI [of _ ?d'], rule exI [of _ name],
              rule exI [of _ cds], rule exI [of _ cd], intro conjI)
             (fact r(1), fact r(2), fact fs, fact r(3), fact r(4), fact r(5), fact af(1), fact f,
              fact t)
      qed
    qed
    show ?thesis
      by (rule exI [of _ x], rule exI [of _ items0], rule exI [of _ memo], rule exI [of _ h1],
          rule exI [of _ a], rule exI [of _ items], intro conjI)
         (fact p(1), fact p(2), fact p(3), fact p(4), fact p(5), fact p(6), fact p(7), fact ent',
          fact frame)
  qed
qed

lemma wf_single_output_store: "wf_store (single_output_store name)"
  by (simp add: wf_store_def single_output_store_def valid_ref_def)

lemma separate_single_output_store: "separate_snippets (single_output_store name) (HRef 0)"
  by (simp add: separate_snippets_def separate_items_def store_get_def single_output_store_def)

theorem output_conditions_applied_witness:
  "parse_outputs_conditions_st 2 (example_template_st [(''condA'', HBool False)])
       (HRef 0) () (single_output_store ''condA'') 0 =
     Some (Inr (HRef 2),
           (example_template_st [(''condA'', HBool False)])
             \<lparr>priv_conditions := Some [(''condA'', HBool False)]\<rparr>,
           single_output_store ''condA'' @
             [ODict [(''out1'', HRef 3)],
              ODict [(''value'', HNone), (''condition'', HBool False)]],
           0) \<and>
   parse_outputs_conditions_st 2 (example_template_st [(''condB'', HBool True)])
       (HRef 0) () (single_output_store ''condB'') 0 =
     Some (Inr (HRef 2),
           (example_template_st [(''condB'', HBool True)])
             \<lparr>priv_conditions := Some [(''condB'', HBool True)]\<rparr>,
           single_output_store ''condB'' @
             [ODict [(''out1'', HRef 3)],
              ODict [(''value'', HStr ''x''), (''condition'', HBool True)]],
           0) \<and>
   wf_store (single_output_store ''condA'') \<and> wf_store (single_output_store ''condB'') \<and>
   separate_snippets (single_output_store ''condA'') (HRef 0) \<and>
   separate_snippets (single_output_store ''condB'') (HRef 0) \<and>
   shallow (example_template_st [(''condA'', HBool False)]) \<and>
   shallow (example_template_st [(''condB'', HBool True)]) \<and>
   evaluator_allocates (example_template_st [(''condA'', HBool False)]) \<and>
   evaluator_allocates (example_template_st [(''condB'', HBool True)])"
proof -
  let ?a = "example_template_st [(''condA'', HBool False)]"
  let ?b = "example_template_st [(''condB'', HBool True)]"
  have a: "parse_outputs_conditions_st 2 ?a (HRef 0) () (single_output_store ''condA'') 0 =
     Some (Inr (HRef 2), ?a\<lparr>priv_conditions := Some [(''condA'', HBool False)]\<rparr>,
           single_output_store ''condA'' @
             [ODict [(''out1'', HRef 3)],
              ODict [(''value'', HNone), (''condition'', HBool False)]],
           0)"
    by (simp add: parse_outputs_conditions_st_def deepcopy_st.simps store_get_def list_append_def
        dict_setitem_def single_output_store_def eval_nat_numeral get_output_condition_st_def
        get_condition_st_def conditions_st_def resolve_conditions_st_def example_template_st_def
        upt_rec nth_append outputs_loop_st.simps)
  have b: "parse_outputs_conditions_st 2 ?b (HRef 0) () (single_output_store ''condB'') 0 =
     Some (Inr (HRef 2), ?b\<lparr>priv_conditions := Some [(''condB'', HBool True)]\<rparr>,
           single_output_store ''condB'' @
             [ODict [(''out1'', HRef 3)],
              ODict [(''value'', HStr ''x''), (''condition'', HBool True)]],
           0)"
    by (simp add: parse_outputs_conditions_st_def deepcopy_st.simps store_get_def list_append_def
        dict_setitem_def single_output_store_def eval_nat_numeral get_output_condition_st_def
        get_condition_st_def conditions_st_def resolve_conditions_st_def example_template_st_def
        upt_rec nth_append outputs_loop_st.simps)
  have v: "\<And>name. valid_ref (single_output_store name) (HRef 0)"
    by (simp add: valid_ref_def single_output_store_def)
  have l: "\<And>name. length (single_output_store name) \<le> 2"
    by (simp add: single_output_store_def)
  have n: "\<And>defs. OUTPUT_CONDITION (example_template_st defs) \<noteq> OUTPUT_VALUE (example_template_st defs)"
    by (simp add: example_template_st_def)
  note ta = output_conditions_applied [OF a wf_single_output_store v l example_evaluator_allocates
      example_shallow separate_single_output_store n]
  note tb = output_conditions_applied [OF b wf_single_output_store v l example_evaluator_allocates
      example_shallow separate_single_output_store n]
  from ta tb a b wf_single_output_store separate_single_output_store example_shallow
    example_evaluator_allocates
  show ?thesis by (intro conjI)
qed

text \<open>
  In \<open>alias_store\<close> the entries \<open>a\<close> and \<open>b\<close> hold one snippet, with the condition
  \<open>c1\<close>, whose resolved value is the string \<open>"c2"\<close>; the resolved value of \<open>c2\<close> is
  \<open>0\<close>. For the entry \<open>a\<close> the snippet gets the condition \<open>"c2"\<close> and keeps its
  value. For the entry \<open>b\<close> the same snippet now names the condition \<open>c2\<close>: it gets
  the condition \<open>0\<close> and the value \<open>None\<close>. So the entry \<open>a\<close> of the result has the
  value \<open>None\<close> and the condition \<open>0\<close>, although its resolved condition is truthy.
\<close>

theorem output_value_aliased_counterexample:
  "parse_outputs_conditions_st 2
       (example_template_st [(''c1'', HStr ''c2''), (''c2'', HInt 0)])
       (HRef 0) () alias_store 0 =
     Some (Inr (HRef 2),
           (example_template_st [(''c1'', HStr ''c2''), (''c2'', HInt 0)])
             \<lparr>priv_conditions := Some [(''c1'', HStr ''c2''), (''c2'', HInt 0)]\<rparr>,
           alias_store @
             [ODict [(''a'', HRef 3), (''b'', HRef 3)],
              ODict [(''value'', HNone), (''condition'', HInt 0)]],
           2) \<and>
   wf_store alias_store \<and>
   store_get alias_store 1 = Some (ODict [(''value'', HStr ''x''), (''condition'', HStr ''c1'')]) \<and>
   truthy_st alias_store (HStr ''c2'')"
  by (simp add: parse_outputs_conditions_st_def deepcopy_st.simps store_get_def list_append_def
        dict_setitem_def alias_store_def eval_nat_numeral get_output_condition_st_def
        get_condition_st_def conditions_st_def resolve_conditions_st_def example_template_st_def
        upt_rec nth_append outputs_loop_st.simps wf_store_def valid_ref_def)

text \<open>
  Claim C10, for outputs whose entries are separate objects, under the conditions of
  C6 on the dialect and the evaluator: the value is suppressed by truthiness.
  Whatever the type of the resolved value \<open>cd\<close> of the condition an entry names, the
  entry gets \<open>cd\<close> itself under \<open>OUTPUT_CONDITION\<close>, the object the conditions hold;
  its \<open>OUTPUT_VALUE\<close> is \<open>None\<close> when \<open>cd\<close> is falsy and is what \<open>deepcopy\<close> had put
  there when \<open>cd\<close> is truthy (\<open>cd\<close> not being the snippet of an entry, which the loop
  changes while it runs). The snippet of an entry without a condition section is
  left as \<open>deepcopy\<close> made it.
\<close>

theorem output_value_suppressed_when_falsy:
  assumes "parse_outputs_conditions_st fuel self outputs stack h w = Some (Inr res, self', h', w')"
    and "wf_store h" and "valid_ref h outputs" and "length h \<le> fuel"
    and "evaluator_allocates self" and "shallow self"
    and "separate_snippets h outputs"
    and "OUTPUT_CONDITION self \<noteq> OUTPUT_VALUE self"
  shows "\<exists>memo h1 a items.
     deepcopy_st fuel outputs [] h = Some (res, memo, h1) \<and> res = HRef a \<and>
     store_get h1 a = Some (ODict items) \<and> store_get h' a = Some (ODict items) \<and>
     (\<forall>(key, snippet) \<in> set items.
        (has_condition_section self (h1, snippet) \<longrightarrow>
          (\<exists>s d d' name cds cd. snippet = HRef s \<and> store_get h1 s = Some (ODict d) \<and>
             store_get h' s = Some (ODict d') \<and>
             map_of d (CONDITION self) = Some (HStr name) \<and>
             priv_conditions self' = Some cds \<and> map_of cds name = Some cd \<and>
             map_of d' (OUTPUT_CONDITION self) = Some cd \<and>
             ((is_ref cd \<longrightarrow> cd \<notin> snd ` set items) \<longrightarrow>
                (\<not> truthy_st h' cd \<longrightarrow> map_of d' (OUTPUT_VALUE self) = Some HNone) \<and>
                (truthy_st h' cd \<longrightarrow>
                   map_of d' (OUTPUT_VALUE self) = map_of d (OUTPUT_VALUE self))))) \<and>
        (\<not> has_condition_section self (h1, snippet) \<longrightarrow>
          (\<forall>s. snippet = HRef s \<longrightarrow> store_get h' s = store_get h1 s)))"
proof -
  from parse_outputs_conditions_st_entries [OF assms(1-7)] show ?thesis
  proof (elim exE conjE)
    fix x items0 memo h1 a items
    assume p: "deepcopy_st fuel outputs [] h = Some (res, memo, h1)" "res = HRef a"
      "store_get h1 a = Some (ODict items)" "store_get h' a = Some (ODict items)"
      and len: "length h1 \<le> length h'" and val: "\<forall>v \<in> snd ` set items. valid_ref h1 v"
      and frame: "\<forall>b<length h1.
        (\<forall>(key, snippet) \<in> set items. has_condition_section self (h1, snippet) \<longrightarrow>
           snippet \<noteq> HRef b) \<longrightarrow> h' ! b = h1 ! b"
      and ent: "\<forall>(key, snippet) \<in> set items. has_condition_section self (h1, snippet) \<longrightarrow>
        (\<exists>s d name cds cd t. snippet = HRef s \<and> store_get h1 s = Some (ODict d) \<and>
           map_of d (CONDITION self) = Some (HStr name) \<and>
           priv_conditions self' = Some cds \<and> map_of cds name = Some cd \<and>
           ((is_ref cd \<longrightarrow> cd \<notin> snd ` set items) \<longrightarrow> t = truthy_st h' cd) \<and>
           store_get h' s =
             Some (ODict (if t then dict_set (OUTPUT_CONDITION self) cd d
                          else dict_set (OUTPUT_VALUE self) HNone
                                 (dict_set (OUTPUT_CONDITION self) cd d))))"
    have ent': "\<forall>(key, snippet) \<in> set items.
        (has_condition_section self (h1, snippet) \<longrightarrow>
          (\<exists>s d d' name cds cd. snippet = HRef s \<and> store_get h1 s = Some (ODict d) \<and>
             store_get h' s = Some (ODict d') \<and>
             map_of d (CONDITION self) = Some (HStr name) \<and>
             priv_conditions self' = Some cds \<and> map_of cds name = Some cd \<and>
             map_of d' (OUTPUT_CONDITION self) = Some cd \<and>
             ((is_ref cd \<longrightarrow> cd \<notin> snd ` set items) \<longrightarrow>
                (\<not> truthy_st h' cd \<longrightarrow> map_of d' (OUTPUT_VALUE self) = Some HNone) \<and>
                (truthy_st h' cd \<longrightarrow>
                   map_of d' (OUTPUT_VALUE self) = map_of d (OUTPUT_VALUE self))))) \<and>
        (\<not> has_condition_section self (h1, snippet) \<longrightarrow>
          (\<forall>s. snippet = HRef s \<longrightarrow> store_get h' s = store_get h1 s))"
    proof (intro ballI, clarify, intro conjI impI allI)
      fix key snippet assume m: "(key, snippet) \<in> set items"
        and hc: "has_condition_section self (h1, snippet)"
      from bspec [OF ent m] hc
      have "\<exists>s d name cds cd t. snippet = HRef s \<and> store_get h1 s = Some (ODict d) \<and>
           map_of d (CONDITION self) = Some (HStr name) \<and>
           priv_conditions self' = Some cds \<and> map_of cds name = Some cd \<and>
           ((is_ref cd \<longrightarrow> cd \<notin> snd ` set items) \<longrightarrow> t = truthy_st h' cd) \<and>
           store_get h' s =
             Some (ODict (if t then dict_set (OUTPUT_CONDITION self) cd d
                          else dict_set (OUTPUT_VALUE self) HNone
                                 (dict_set (OUTPUT_CONDITION self) cd d)))"
        by simp
      then show "\<exists>s d d' name cds cd. snippet = HRef s \<and> store_get h1 s = Some (ODict d) \<and>
             store_get h' s = Some (ODict d') \<and>
             map_of d (CONDITION self) = Some (HStr name) \<and>
             priv_conditions self' = Some cds \<and> map_of cds name = Some cd \<and>
             map_of d' (OUTPUT_CONDITION self) = Some cd \<and>
             ((is_ref cd \<longrightarrow> cd \<notin> snd ` set items) \<longrightarrow>
                (\<not> truthy_st h' cd \<longrightarrow> map_of d' (OUTPUT_VALUE self) = Some HNone) \<and>
                (truthy_st h' cd \<longrightarrow>
                   map_of d' (OUTPUT_VALUE self) = map_of d (OUTPUT_VALUE self)))"
      proof (elim exE conjE)
        fix s d name cds cd t
        assume r: "snippet = HRef s" "store_get h1 s = Some (ODict d)"
          "map_of d (CONDITION self) = Some (HStr name)"
          "priv_conditions self' = Some cds" "map_of cds name = Some cd"
          and tt: "(is_ref cd \<longrightarrow> cd \<notin> snd ` set items) \<longrightarrow> t = truthy_st h' cd"
          and fs: "store_get h' s =
             Some (ODict (if t then dict_set (OUTPUT_CONDITION self) cd d
                          else dict_set (OUTPUT_VALUE self) HNone
                                 (dict_set (OUTPUT_CONDITION self) cd d)))"
        let ?d' = "if t then dict_set (OUTPUT_CONDITION self) cd d
               else dict_set (OUTPUT_VALUE self) HNone (dict_set (OUTPUT_CONDITION self) cd d)"
        note af = applied_fields [OF assms(8), of ?d' t cd d, OF refl]
        have f: "(is_ref cd \<longrightarrow> cd \<notin> snd ` set items) \<longrightarrow>
                (\<not> truthy_st h' cd \<longrightarrow> map_of ?d' (OUTPUT_VALUE self) = Some HNone) \<and>
                (truthy_st h' cd \<longrightarrow>
                   map_of ?d' (OUTPUT_VALUE self) = map_of d (OUTPUT_VALUE self))"
        proof (intro impI conjI)
          assume "is_ref cd \<longrightarrow> cd \<notin> snd ` set items" and "\<not> truthy_st h' cd"
          with tt have "\<not> t" by simp
          then show "map_of ?d' (OUTPUT_VALUE self) = Some HNone" by (rule af(2))
        next
          assume "is_ref cd \<longrightarrow> cd \<notin> snd ` set items" and "truthy_st h' cd"
          with tt have "t" by simp
          then show "map_of ?d' (OUTPUT_VALUE self) = map_of d (OUTPUT_VALUE self)" by (rule af(3))
        qed
        show ?thesis
          by (rule exI [of _ s], rule exI [of _ d], rule exI [of _ ?d'], rule exI [of _ name],
              rule exI [of _ cds], rule exI [of _ cd], intro conjI)
             (fact r(1), fact r(2), fact fs, fact r(3), fact r(4), fact r(5), fact af(1), fact f)
      qed
    next
      fix key snippet s assume m: "(key, snippet) \<in> set items"
        and hc: "\<not> has_condition_section self (h1, snippet)" and s: "snippet = HRef s"
      from m have "snippet \<in> snd ` set items" by force
      with val have "valid_ref h1 snippet" by blast
      with s have sl: "s < length h1" by (simp add: valid_ref_def)
      have "\<forall>(key, snippet) \<in> set items. has_condition_section self (h1, snippet) \<longrightarrow>
           snippet \<noteq> HRef s"
        using hc s by auto
      with frame sl have "h' ! s = h1 ! s" by blast
      with sl len show "store_get h' s = store_get h1 s" by (simp add: store_get_def)
    qed
    show ?thesis
      by (rule exI [of _ memo], rule exI [of _ h1], rule exI [of _ a], rule exI [of _ items],
          intro conjI)
         (fact p(1), fact p(2), fact p(3), fact p(4), fact ent')
  qed
qed

lemma wf_three_outputs_store: "wf_store three_outputs_store"
  by (simp add: wf_store_def three_outputs_store_def valid_ref_def)

lemma separate_three_outputs_store: "separate_snippets three_outputs_store (HRef 0)"
  by (simp add: separate_snippets_def separate_items_def store_get_def three_outputs_store_def)

theorem output_value_suppressed_when_falsy_witness:
  "parse_outputs_conditions_st 4
       (example_template_st [(''zero'', HInt 0), (''word'', HStr ''yes'')])
       (HRef 0) () three_outputs_store 0 =
     Some (Inr (HRef 4),
           (example_template_st [(''zero'', HInt 0), (''word'', HStr ''yes'')])
             \<lparr>priv_conditions := Some [(''zero'', HInt 0), (''word'', HStr ''yes'')]\<rparr>,
           three_outputs_store @
             [ODict [(''out1'', HRef 5), (''out2'', HRef 6), (''out3'', HRef 7)],
              ODict [(''value'', HNone), (''condition'', HInt 0)],
              ODict [(''value'', HStr ''x''), (''condition'', HStr ''yes'')],
              ODict [(''value'', HStr ''z'')]],
           2) \<and>
   wf_store three_outputs_store \<and> separate_snippets three_outputs_store (HRef 0) \<and>
   shallow (example_template_st [(''zero'', HInt 0), (''word'', HStr ''yes'')]) \<and>
   evaluator_allocates (example_template_st [(''zero'', HInt 0), (''word'', HStr ''yes'')])"
proof -
  let ?t = "example_template_st [(''zero'', HInt 0), (''word'', HStr ''yes'')]"
  have a: "parse_outputs_conditions_st 4 ?t (HRef 0) () three_outputs_store 0 =
     Some (Inr (HRef 4),
           ?t\<lparr>priv_conditions := Some [(''zero'', HInt 0), (''word'', HStr ''yes'')]\<rparr>,
           three_outputs_store @
             [ODict [(''out1'', HRef 5), (''out2'', HRef 6), (''out3'', HRef 7)],
              ODict [(''value'', HNone), (''condition'', HInt 0)],
              ODict [(''value'', HStr ''x''), (''condition'', HStr ''yes'')],
              ODict [(''value'', HStr ''z'')]],
           2)"
    by (simp add: parse_outputs_conditions_st_def deepcopy_st.simps store_get_def list_append_def
        dict_setitem_def three_outputs_store_def eval_nat_numeral get_output_condition_st_def
        get_condition_st_def conditions_st_def resolve_conditions_st_def example_template_st_def
        upt_rec nth_append outputs_loop_st.simps)
  have v: "valid_ref three_outputs_store (HRef 0)"
    by (simp add: valid_ref_def three_outputs_store_def)
  have l: "length three_outputs_store \<le> 4"
    by (simp add: three_outputs_store_def)
  have n: "OUTPUT_CONDITION ?t \<noteq> OUTPUT_VALUE ?t"
    by (simp add: example_template_st_def)
  note t = output_value_suppressed_when_falsy [OF a wf_three_outputs_store v l
      example_evaluator_allocates example_shallow separate_three_outputs_store n]
  from t a wf_three_outputs_store separate_three_outputs_store example_shallow
    example_evaluator_allocates
  show ?thesis by (intro conjI)
qed

end
